theory Spec2Isabelle
  imports Main "HOL-Library.Word"
begin

unbundle bit_operations_syntax

section \<open>Data model (radix.h as used by radix.c and \_radix.c)\<close>

text \<open>
  \<^verbatim>\<open>prefix_t\<close>: the family, the prefix length and the address bytes in network order
  (4 bytes for \<^verbatim>\<open>AF_INET\<close>, 16 for \<^verbatim>\<open>AF_INET6\<close>). The reference count is not modelled:
  a prefix is a value here, and \<^verbatim>\<open>Ref_Prefix\<close> hands back the same value. The binding
  calls \<^verbatim>\<open>radix_lookup\<close> with a counted prefix only, for which \<^verbatim>\<open>Ref_Prefix\<close> does not
  allocate.
\<close>

datatype family = AF_INET | AF_INET6

record prefix_t =
  family :: family
  bitlen :: nat
  add :: "8 word list"

text \<open>
  \<^verbatim>\<open>radix_node_t\<close>. The tree is owned through \<^verbatim>\<open>l\<close> and \<^verbatim>\<open>r\<close>; a node is the value
  \<open>Node bit prefix data l r\<close> and the null pointer is \<open>NULL\<close>. \<^verbatim>\<open>data\<close> is the handle
  of the Python object hung on the node. The \<^verbatim>\<open>parent\<close> back pointer is the path
  by which a node is reached: a pointer to a node is the list of turns from the head
  (\<open>False\<close> for \<^verbatim>\<open>l\<close>, \<open>True\<close> for \<^verbatim>\<open>r\<close>), and its parent is the path without the last turn.
\<close>

datatype radix_node_t =
  NULL
  | Node (n_bit: nat) (n_prefix: "prefix_t option") (n_data: "nat option")
         (n_l: radix_node_t) (n_r: radix_node_t)

type_synonym node_ptr = "bool list"

record radix_tree_t =
  head_ipv4 :: radix_node_t
  head_ipv6 :: radix_node_t
  num_active_node :: int

text \<open>
  What the C code can run into besides its return values: a read through a null
  pointer, a read outside the address bytes, and (in the model only) a node pointer
  that does not denote a node of the tree it is used with.
\<close>

datatype fault = NullDeref | OutOfRange | BadPointer

fun node_at :: "radix_node_t \<Rightarrow> node_ptr \<Rightarrow> radix_node_t" where
  "node_at n [] = n"
| "node_at NULL (d # ds) = NULL"
| "node_at (Node b p dt lt rt) (d # ds) = node_at (if d then rt else lt) ds"

text \<open>Storing a pointer into the slot (head, or \<^verbatim>\<open>l\<close>/\<^verbatim>\<open>r\<close> of the parent) a path denotes.\<close>

fun replace_at :: "radix_node_t \<Rightarrow> node_ptr \<Rightarrow> radix_node_t \<Rightarrow> radix_node_t" where
  "replace_at n [] new = new"
| "replace_at NULL (d # ds) new = NULL"
| "replace_at (Node b p dt lt rt) (d # ds) new =
     (if d then Node b p dt lt (replace_at rt ds new)
      else Node b p dt (replace_at lt ds new) rt)"

section \<open>Macros and prefix comparison (radix.c)\<close>

definition RADIX_MAXBITS :: nat where
  "RADIX_MAXBITS = 128"

definition RADIX_MAXBITS_BY_PREFIX :: "prefix_t \<Rightarrow> nat" where
  "RADIX_MAXBITS_BY_PREFIX p = (if family p = AF_INET then 32 else 128)"

definition RADIX_HEAD_BY_PREFIX :: "radix_tree_t \<Rightarrow> prefix_t \<Rightarrow> radix_node_t" where
  "RADIX_HEAD_BY_PREFIX radix p =
     (if family p = AF_INET then head_ipv4 radix else head_ipv6 radix)"

text \<open>\<^verbatim>\<open>*RADIX_PHEAD_BY_PREFIX(radix, prefix) = n\<close>\<close>

definition set_head :: "radix_tree_t \<Rightarrow> prefix_t \<Rightarrow> radix_node_t \<Rightarrow> radix_tree_t" where
  "set_head radix p n =
     (if family p = AF_INET then radix\<lparr>head_ipv4 := n\<rparr> else radix\<lparr>head_ipv6 := n\<rparr>)"

text \<open>
  \<^verbatim>\<open>BIT_TEST_SEARCH_BIT(addr, bit)\<close> reads byte \<open>bit >> 3\<close> and tests it against
  \<open>0x80 >> (bit & 7)\<close>. \<open>None\<close> is a read outside the address bytes.
\<close>

definition BIT_TEST_SEARCH_BIT :: "8 word list \<Rightarrow> nat \<Rightarrow> bool option" where
  "BIT_TEST_SEARCH_BIT addr b =
     (if b div 8 < length addr
      then Some ((addr ! (b div 8)) AND drop_bit (b mod 8) 0x80 \<noteq> 0)
      else None)"

text \<open>
  \<^verbatim>\<open>comp_with_mask\<close>: \<^verbatim>\<open>memcmp\<close> over the whole bytes, then the leading \<open>mask % 8\<close> bits
  of the next byte under the mask \<open>(~0) << (8 - mask % 8)\<close>, computed in 32 bits
  after the integer promotion of the bytes.
\<close>

definition comp_with_mask :: "8 word list \<Rightarrow> 8 word list \<Rightarrow> nat \<Rightarrow> bool" where
  "comp_with_mask addr dest msk =
     (if take (msk div 8) addr = take (msk div 8) dest then
        (let n = msk div 8;
             m = push_bit (8 - msk mod 8) (NOT 0 :: 32 word)
         in msk mod 8 = 0 \<or>
            (ucast (addr ! n) AND m) = (ucast (dest ! n) AND m))
      else False)"


section \<open>Searching (radix.c)\<close>

text \<open>
  \<^verbatim>\<open>BIT_TEST_SEARCH(addr, node)\<close> inside the two search macros. The macros test bit
  \<open>node->bit\<close> without comparing it with the width of the family, so with
  \<open>RADIX_SEARCH_FOREACH_INCLUSIVE\<close> on a full-length query the test reads the byte
  after the address. What that read gives is not determined by the program: \<open>oob b\<close>
  is the outcome of the test of bit \<open>b\<close> when it falls outside the address bytes.
\<close>

definition BIT_TEST_SEARCH :: "(nat \<Rightarrow> bool) \<Rightarrow> 8 word list \<Rightarrow> nat \<Rightarrow> bool" where
  "BIT_TEST_SEARCH oob addr b =
     (case BIT_TEST_SEARCH_BIT addr b of Some v \<Rightarrow> v | None \<Rightarrow> oob b)"

text \<open>\<^verbatim>\<open>RADIX_SEARCH_FOREACH\<close> with an empty body: the pointer the loop ends on.\<close>

fun RADIX_SEARCH_FOREACH :: "(nat \<Rightarrow> bool) \<Rightarrow> radix_node_t \<Rightarrow> prefix_t \<Rightarrow> node_ptr option" where
  "RADIX_SEARCH_FOREACH oob NULL q = None"
| "RADIX_SEARCH_FOREACH oob (Node b p dt lt rt) q =
     (if b < bitlen q then
        (if BIT_TEST_SEARCH oob (add q) b
         then map_option (Cons True) (RADIX_SEARCH_FOREACH oob rt q)
         else map_option (Cons False) (RADIX_SEARCH_FOREACH oob lt q))
      else Some [])"

text \<open>\<^verbatim>\<open>RADIX_SEARCH_FOREACH_INCLUSIVE\<close>: the nodes the loop body runs on, in order.\<close>

fun RADIX_SEARCH_FOREACH_INCLUSIVE ::
  "(nat \<Rightarrow> bool) \<Rightarrow> radix_node_t \<Rightarrow> prefix_t \<Rightarrow> node_ptr list" where
  "RADIX_SEARCH_FOREACH_INCLUSIVE oob NULL q = []"
| "RADIX_SEARCH_FOREACH_INCLUSIVE oob (Node b p dt lt rt) q =
     (if b \<le> bitlen q then
        [] # (if BIT_TEST_SEARCH oob (add q) b
              then map (Cons True) (RADIX_SEARCH_FOREACH_INCLUSIVE oob rt q)
              else map (Cons False) (RADIX_SEARCH_FOREACH_INCLUSIVE oob lt q))
      else [])"

definition radix_search_exact ::
  "(nat \<Rightarrow> bool) \<Rightarrow> radix_tree_t \<Rightarrow> prefix_t \<Rightarrow> node_ptr option" where
  "radix_search_exact oob radix q =
     (let head = RADIX_HEAD_BY_PREFIX radix q in
      if head = NULL then None
      else case RADIX_SEARCH_FOREACH oob head q of
             None \<Rightarrow> None
           | Some np \<Rightarrow>
               (case node_at head np of
                  NULL \<Rightarrow> None
                | Node b p dt lt rt \<Rightarrow>
                    (case p of
                       None \<Rightarrow> None
                     | Some s \<Rightarrow>
                         if b > bitlen q then None
                         else if comp_with_mask (add s) (add q) (bitlen q) then Some np
                         else None)))"

text \<open>The test under which \<^verbatim>\<open>radix_search_best2\<close> pushes a node on its stack.\<close>

definition best_pushed :: "radix_node_t \<Rightarrow> prefix_t \<Rightarrow> bool \<Rightarrow> node_ptr \<Rightarrow> bool" where
  "best_pushed head q inclusive np =
     (case node_at head np of
        NULL \<Rightarrow> False
      | Node b p dt lt rt \<Rightarrow> p \<noteq> None \<and> (inclusive \<or> b \<noteq> bitlen q))"

text \<open>The test under which the scan from the top of the stack returns a node.\<close>

definition best_accepts :: "radix_node_t \<Rightarrow> prefix_t \<Rightarrow> node_ptr \<Rightarrow> bool" where
  "best_accepts head q np =
     (case node_at head np of
        NULL \<Rightarrow> False
      | Node b p dt lt rt \<Rightarrow>
          (case p of
             None \<Rightarrow> False
           | Some s \<Rightarrow> comp_with_mask (add s) (add q) (bitlen s) \<and> bitlen s \<le> bitlen q))"

definition radix_search_best2 ::
  "(nat \<Rightarrow> bool) \<Rightarrow> radix_tree_t \<Rightarrow> prefix_t \<Rightarrow> bool \<Rightarrow> node_ptr option" where
  "radix_search_best2 oob radix q inclusive =
     (let head = RADIX_HEAD_BY_PREFIX radix q in
      if head = NULL then None
      else let stack = filter (best_pushed head q inclusive)
                         (RADIX_SEARCH_FOREACH_INCLUSIVE oob head q)
           in find (best_accepts head q) (rev stack))"

definition radix_search_best ::
  "(nat \<Rightarrow> bool) \<Rightarrow> radix_tree_t \<Rightarrow> prefix_t \<Rightarrow> node_ptr option" where
  "radix_search_best oob radix q = radix_search_best2 oob radix q True"

text \<open>
  The walk of \<^verbatim>\<open>radix_search_covering\<close> from a node up through the parents. The
  callback \<open>func\<close> gets the node pointer; the result is the return code and the
  nodes the callback was invoked on, in order.
\<close>

function covering_walk ::
  "radix_node_t \<Rightarrow> (node_ptr \<Rightarrow> int) \<Rightarrow> node_ptr \<Rightarrow> int \<times> node_ptr list" where
  "covering_walk head func np =
     (if node_at head np \<noteq> NULL \<and> n_prefix (node_at head np) \<noteq> None then
        (if func np \<noteq> 0 then (func np, [np])
         else if np = [] then (0, [np])
         else (case covering_walk head func (butlast np) of
                 (rc, calls) \<Rightarrow> (rc, np # calls)))
      else if np = [] then (0, [])
      else covering_walk head func (butlast np))"
  by pat_completeness auto
termination
  by (relation "measure (\<lambda>(head, func, np). length np)") auto

declare covering_walk.simps [simp del]

definition radix_search_covering ::
  "(nat \<Rightarrow> bool) \<Rightarrow> radix_tree_t \<Rightarrow> prefix_t \<Rightarrow> (node_ptr \<Rightarrow> int) \<Rightarrow> int \<times> node_ptr list" where
  "radix_search_covering oob radix q func =
     (case radix_search_best oob radix q of
        None \<Rightarrow> (0, [])
      | Some np \<Rightarrow> covering_walk (RADIX_HEAD_BY_PREFIX radix q) func np)"

definition COMP_NODE_PREFIX :: "radix_node_t \<Rightarrow> prefix_t \<Rightarrow> bool" where
  "COMP_NODE_PREFIX n q =
     (case n_prefix n of
        None \<Rightarrow> False
      | Some s \<Rightarrow> comp_with_mask (add s) (add q) (min (bitlen s) (bitlen q)))"

text \<open>
  The first loop of \<^verbatim>\<open>radix_search_covered\<close>: the values of \<^verbatim>\<open>node\<close>, \<^verbatim>\<open>prev_node\<close> and
  \<^verbatim>\<open>prefixed_node\<close> when it ends (\<open>None\<close> is the null pointer).
\<close>

fun covered_descend ::
  "(nat \<Rightarrow> bool) \<Rightarrow> radix_node_t \<Rightarrow> prefix_t \<Rightarrow> node_ptr \<Rightarrow> node_ptr option \<Rightarrow> node_ptr option
   \<Rightarrow> node_ptr option \<times> node_ptr option \<times> node_ptr option" where
  "covered_descend oob NULL q np prev prefixed = (None, prev, prefixed)"
| "covered_descend oob (Node b p dt lt rt) q np prev prefixed =
     (if b \<le> bitlen q then
        (if b = bitlen q then (Some np, Some np, prefixed)
         else if BIT_TEST_SEARCH oob (add q) b
         then covered_descend oob rt q (np @ [True]) (Some np)
                (if p \<noteq> None then Some np else prefixed)
         else covered_descend oob lt q (np @ [False]) (Some np)
                (if p \<noteq> None then Some np else prefixed))
      else (Some np, prev, prefixed))"

datatype walk_state = RADIX_STATE_LEFT | RADIX_STATE_RIGHT | RADIX_STATE_SELF

type_synonym frame = "node_ptr \<times> walk_state \<times> bool"

fun nodes :: "radix_node_t \<Rightarrow> nat" where
  "nodes NULL = 0"
| "nodes (Node b p dt lt rt) = Suc (nodes lt + nodes rt)"

fun frame_work :: "radix_node_t \<Rightarrow> frame \<Rightarrow> nat" where
  "frame_work head (np, RADIX_STATE_LEFT, c) =
     3 + 3 * nodes (node_at head (np @ [False])) + 3 * nodes (node_at head (np @ [True]))"
| "frame_work head (np, RADIX_STATE_RIGHT, c) =
     2 + 3 * nodes (node_at head (np @ [True]))"
| "frame_work head (np, RADIX_STATE_SELF, c) = 1"

text \<open>
  The stack machine of \<^verbatim>\<open>radix_search_covered\<close>; the list is the stack, top first,
  so \<open>stackpos > 0\<close> is a non-empty rest.
\<close>

function covered_loop ::
  "radix_node_t \<Rightarrow> prefix_t \<Rightarrow> (node_ptr \<Rightarrow> int) \<Rightarrow> bool \<Rightarrow> frame list \<Rightarrow> int \<times> node_ptr list" where
  "covered_loop head q func inclusive [] = (0, [])"
| "covered_loop head q func inclusive ((np, RADIX_STATE_SELF, c) # rest) =
     (if (rest \<noteq> [] \<or> (if inclusive then n_bit (node_at head np) \<ge> bitlen q
                         else n_bit (node_at head np) > bitlen q))
         \<and> n_prefix (node_at head np) \<noteq> None
      then (if func np \<noteq> 0 then (func np, [np])
            else (case covered_loop head q func inclusive rest of
                    (rc, calls) \<Rightarrow> (rc, np # calls)))
      else covered_loop head q func inclusive rest)"
| "covered_loop head q func inclusive ((np, RADIX_STATE_LEFT, c) # rest) =
     (let cp = np @ [False]; n = node_at head cp in
      if n = NULL then covered_loop head q func inclusive ((np, RADIX_STATE_RIGHT, c) # rest)
      else if \<not> c \<and> n_prefix n \<noteq> None \<and> \<not> COMP_NODE_PREFIX n q
      then covered_loop head q func inclusive ((np, RADIX_STATE_RIGHT, c) # rest)
      else covered_loop head q func inclusive
             ((cp, RADIX_STATE_LEFT, c \<or> n_prefix n \<noteq> None) # (np, RADIX_STATE_RIGHT, c) # rest))"
| "covered_loop head q func inclusive ((np, RADIX_STATE_RIGHT, c) # rest) =
     (let cp = np @ [True]; n = node_at head cp in
      if n = NULL then covered_loop head q func inclusive ((np, RADIX_STATE_SELF, c) # rest)
      else if \<not> c \<and> n_prefix n \<noteq> None \<and> \<not> COMP_NODE_PREFIX n q
      then covered_loop head q func inclusive ((np, RADIX_STATE_SELF, c) # rest)
      else covered_loop head q func inclusive
             ((cp, RADIX_STATE_LEFT, c \<or> n_prefix n \<noteq> None) # (np, RADIX_STATE_SELF, c) # rest))"
  by pat_completeness auto


lemma node_at_NULL: "node_at NULL np = NULL"
  by (cases np) auto

lemma node_at_append: "node_at n (xs @ ys) = node_at (node_at n xs) ys"
  by (induction n xs rule: node_at.induct) (auto simp: node_at_NULL)

lemma nodes_children:
  "n \<noteq> NULL \<Longrightarrow> nodes n = Suc (nodes (node_at n [False]) + nodes (node_at n [True]))"
  by (cases n) auto

lemma frame_work_push:
  "node_at head cp \<noteq> NULL \<Longrightarrow>
   frame_work head (cp, RADIX_STATE_LEFT, c) = 3 * nodes (node_at head cp)"
  by (simp add: node_at_append nodes_children)

termination covered_loop
proof (relation "measure (\<lambda>(head, q, func, inclusive, st). sum_list (map (frame_work head) st))",
    goal_cases)
  case 1
  show ?case by simp
next
  case 2
  then show ?case by simp
next
  case 3
  then show ?case by simp
next
  case 4
  then show ?case by simp
next
  case 5
  then show ?case by simp
next
  case (6 head q func inclusive np c rest x xa)
  then have "node_at head (np @ [False]) \<noteq> NULL" by simp
  from frame_work_push [OF this] 6 show ?case by simp
next
  case 7
  then show ?case by simp
next
  case 8
  then show ?case by simp
next
  case (9 head q func inclusive np c rest x xa)
  then have "node_at head (np @ [True]) \<noteq> NULL" by simp
  from frame_work_push [OF this] 9 show ?case by simp
qed


definition radix_search_covered ::
  "(nat \<Rightarrow> bool) \<Rightarrow> radix_tree_t \<Rightarrow> prefix_t \<Rightarrow> (node_ptr \<Rightarrow> int) \<Rightarrow> bool
   \<Rightarrow> int \<times> node_ptr list" where
  "radix_search_covered oob radix q func inclusive =
     (let head = RADIX_HEAD_BY_PREFIX radix q in
      case covered_descend oob head q [] None None of
        (node0, prev_node, prefixed0) \<Rightarrow>
          (if node0 = None \<and> prev_node = None then (0, [])
           else
             let node = (case node0 of None \<Rightarrow> the prev_node | Some np \<Rightarrow> np);
                 prefixed_node =
                   (if node0 \<noteq> None \<and> n_prefix (node_at head node) \<noteq> None
                    then Some node else prefixed0)
             in if prefixed_node \<noteq> None \<and>
                   \<not> COMP_NODE_PREFIX (node_at head (the prefixed_node)) q
                then (0, [])
                else covered_loop head q func inclusive
                       [(node, RADIX_STATE_LEFT,
                         Some node = prefixed_node \<and> n_bit (node_at head node) \<ge> bitlen q)]))"

section \<open>Insertion and removal (radix.c)\<close>

text \<open>
  The descent of \<^verbatim>\<open>radix_lookup\<close>: the path of the node the \<^verbatim>\<open>while\<close> loop stops on.
\<close>

fun lookup_descend :: "radix_node_t \<Rightarrow> 8 word list \<Rightarrow> nat \<Rightarrow> nat \<Rightarrow> fault + node_ptr" where
  "lookup_descend NULL addr blen maxbits = Inl NullDeref"
| "lookup_descend (Node b p dt lt rt) addr blen maxbits =
     (if b < blen \<or> p = None then
        (case (if b < maxbits then BIT_TEST_SEARCH_BIT addr b else Some False) of
           None \<Rightarrow> Inl OutOfRange
         | Some True \<Rightarrow>
             (if rt = NULL then Inr []
              else case lookup_descend rt addr blen maxbits of
                     Inl f \<Rightarrow> Inl f
                   | Inr np \<Rightarrow> Inr (True # np))
         | Some False \<Rightarrow>
             (if lt = NULL then Inr []
              else case lookup_descend lt addr blen maxbits of
                     Inl f \<Rightarrow> Inl f
                   | Inr np \<Rightarrow> Inr (False # np)))
      else Inr [])"

text \<open>The inner loop over \<open>j\<close>: the first set bit of \<open>r\<close> from the top, 8 when there is none.\<close>

function first_set :: "8 word \<Rightarrow> nat \<Rightarrow> nat" where
  "first_set r j =
     (if j < 8 then (if r AND drop_bit j 0x80 \<noteq> 0 then j else first_set r (j + 1)) else j)"
  by pat_completeness auto
termination
  by (relation "measure (\<lambda>(r, j). 8 - j)") auto

declare first_set.simps [simp del]

text \<open>The loop over \<open>i\<close> that finds the first differing bit, before the cap at \<open>check_bit\<close>.\<close>

function find_differ :: "8 word list \<Rightarrow> 8 word list \<Rightarrow> nat \<Rightarrow> nat \<Rightarrow> nat \<Rightarrow> fault + nat" where
  "find_differ addr test_addr check_bit i differ_bit =
     (if i * 8 < check_bit then
        (if i < length addr \<and> i < length test_addr then
           (let r = (addr ! i) XOR (test_addr ! i) in
            if r = 0 then find_differ addr test_addr check_bit (i + 1) ((i + 1) * 8)
            else Inr (i * 8 + first_set r 0))
         else Inl OutOfRange)
      else Inr differ_bit)"
  by pat_completeness auto
termination
  by (relation "measure (\<lambda>(addr, test_addr, check_bit, i, differ_bit). check_bit - i * 8)") auto

declare find_differ.simps [simp del]

text \<open>The walk up through the parents while \<open>parent->bit >= differ_bit\<close>.\<close>

function walk_up :: "radix_node_t \<Rightarrow> node_ptr \<Rightarrow> nat \<Rightarrow> node_ptr" where
  "walk_up head np differ_bit =
     (if np \<noteq> [] \<and> n_bit (node_at head (butlast np)) \<ge> differ_bit
      then walk_up head (butlast np) differ_bit
      else np)"
  by pat_completeness auto
termination
  by (relation "measure (\<lambda>(head, np, differ_bit). length np)") auto

declare walk_up.simps [simp del]

text \<open>
  \<^verbatim>\<open>radix_lookup\<close>. \<open>avail\<close> is the number of calls of \<^verbatim>\<open>PyMem_Malloc\<close> that succeed
  before one returns null. The result is the tree after the call and the returned
  node pointer (\<open>None\<close> for the null return), or a fault.
\<close>

definition new_leaf :: "prefix_t \<Rightarrow> radix_node_t" where
  "new_leaf p = Node (bitlen p) (Some p) None NULL NULL"

text \<open>The four cases of \<^verbatim>\<open>radix_lookup\<close> after the walk up has settled on the node at \<open>np\<close>.\<close>

definition lookup_attach ::
  "nat \<Rightarrow> radix_tree_t \<Rightarrow> prefix_t \<Rightarrow> 8 word list \<Rightarrow> nat \<Rightarrow> node_ptr
   \<Rightarrow> fault + (radix_tree_t \<times> node_ptr option)" where
  "lookup_attach avail radix p test_addr differ_bit np =
     (let maxbits = RADIX_MAXBITS_BY_PREFIX p;
          head = RADIX_HEAD_BY_PREFIX radix p;
          node = node_at head np
      in
      if differ_bit = bitlen p \<and> n_bit node = bitlen p then
        (if n_prefix node = None
         then Inr (set_head radix p
                     (replace_at head np
                        (Node (n_bit node) (Some p) (n_data node) (n_l node) (n_r node))),
                   Some np)
         else Inr (radix, Some np))
      else if avail = 0 then Inr (radix, None)
      else if n_bit node = differ_bit then
        (case (if n_bit node < maxbits
               then BIT_TEST_SEARCH_BIT (add p) (n_bit node) else Some False) of
           None \<Rightarrow> Inl OutOfRange
         | Some dir \<Rightarrow>
             Inr ((set_head radix p
                     (replace_at head np
                        (if dir
                         then Node (n_bit node) (n_prefix node) (n_data node)
                                (n_l node) (new_leaf p)
                         else Node (n_bit node) (n_prefix node) (n_data node)
                                (new_leaf p) (n_r node))))
                   \<lparr>num_active_node := num_active_node radix + 1\<rparr>,
                  Some (np @ [dir])))
      else if bitlen p = differ_bit then
        (case (if bitlen p < maxbits
               then BIT_TEST_SEARCH_BIT test_addr (bitlen p) else Some False) of
           None \<Rightarrow> Inl OutOfRange
         | Some dir \<Rightarrow>
             Inr ((set_head radix p
                     (replace_at head np
                        (if dir
                         then Node (bitlen p) (Some p) None NULL node
                         else Node (bitlen p) (Some p) None node NULL)))
                   \<lparr>num_active_node := num_active_node radix + 1\<rparr>,
                  Some np))
      else if avail = 1 then
        Inr (radix\<lparr>num_active_node := num_active_node radix + 1\<rparr>, None)
      else
        (case (if differ_bit < maxbits
               then BIT_TEST_SEARCH_BIT (add p) differ_bit else Some False) of
           None \<Rightarrow> Inl OutOfRange
         | Some dir \<Rightarrow>
             Inr ((set_head radix p
                     (replace_at head np
                        (if dir
                         then Node differ_bit None None node (new_leaf p)
                         else Node differ_bit None None (new_leaf p) node)))
                   \<lparr>num_active_node := num_active_node radix + 2\<rparr>,
                  Some (np @ [dir]))))"

text \<open>The first differing bit, capped at \<open>check_bit\<close>.\<close>

definition differ_bit_of :: "8 word list \<Rightarrow> 8 word list \<Rightarrow> nat \<Rightarrow> fault + nat" where
  "differ_bit_of addr test_addr check_bit =
     (case find_differ addr test_addr check_bit 0 0 of
        Inl f \<Rightarrow> Inl f
      | Inr d0 \<Rightarrow> Inr (if d0 > check_bit then check_bit else d0))"

definition radix_lookup ::
  "nat \<Rightarrow> radix_tree_t \<Rightarrow> prefix_t \<Rightarrow> fault + (radix_tree_t \<times> node_ptr option)" where
  "radix_lookup avail radix p =
     (let maxbits = RADIX_MAXBITS_BY_PREFIX p;
          head = RADIX_HEAD_BY_PREFIX radix p
      in
      if head = NULL then
        (if avail = 0 then Inr (radix, None)
         else Inr ((set_head radix p (new_leaf p))
                     \<lparr>num_active_node := num_active_node radix + 1\<rparr>, Some []))
      else
        case lookup_descend head (add p) (bitlen p) maxbits of
          Inl f \<Rightarrow> Inl f
        | Inr stop \<Rightarrow>
           (case n_prefix (node_at head stop) of
              None \<Rightarrow> Inl NullDeref
            | Some tp \<Rightarrow>
               (let check_bit = (if n_bit (node_at head stop) < bitlen p
                                 then n_bit (node_at head stop) else bitlen p)
                in
                case differ_bit_of (add p) (add tp) check_bit of
                  Inl f \<Rightarrow> Inl f
                | Inr differ_bit \<Rightarrow>
                    lookup_attach avail radix p (add tp) differ_bit
                      (walk_up head stop differ_bit))))"

definition head_by_family :: "radix_tree_t \<Rightarrow> family \<Rightarrow> radix_node_t" where
  "head_by_family radix fam = (if fam = AF_INET then head_ipv4 radix else head_ipv6 radix)"

text \<open>
  \<^verbatim>\<open>radix_remove\<close>. The node pointer is the head it hangs under and the path. The C code
  takes the head to write from \<open>node->prefix->family\<close>: a node without a prefix is a
  read through null, and a prefix of the other family is outside what a path under
  one head can express.
\<close>

definition radix_remove :: "radix_tree_t \<Rightarrow> family \<Rightarrow> node_ptr \<Rightarrow> fault + radix_tree_t" where
  "radix_remove radix fam np =
     (let head = head_by_family radix fam in
      case node_at head np of
        NULL \<Rightarrow> Inl BadPointer
      | Node b p dt lt rt \<Rightarrow>
         (case p of
            None \<Rightarrow> Inl NullDeref
          | Some s \<Rightarrow>
             if family s \<noteq> fam then Inl BadPointer
             else if rt \<noteq> NULL \<and> lt \<noteq> NULL then
               Inr (set_head radix s (replace_at head np (Node b None None lt rt)))
             else if rt = NULL \<and> lt = NULL then
               (if np = [] then
                  Inr ((set_head radix s NULL)
                         \<lparr>num_active_node := num_active_node radix - 1\<rparr>)
                else
                  let pp = butlast np;
                      parent = node_at head pp;
                      child = (if last np then n_l parent else n_r parent)
                  in
                  if n_prefix parent \<noteq> None then
                    Inr ((set_head radix s (replace_at head np NULL))
                           \<lparr>num_active_node := num_active_node radix - 1\<rparr>)
                  else if child = NULL then Inl NullDeref
                  else
                    Inr ((set_head radix s (replace_at head pp child))
                           \<lparr>num_active_node := num_active_node radix - 2\<rparr>))
             else
               Inr ((set_head radix s (replace_at head np (if rt \<noteq> NULL then rt else lt)))
                      \<lparr>num_active_node := num_active_node radix - 1\<rparr>)))"

definition New_Radix :: radix_tree_t where
  "New_Radix = \<lparr>head_ipv4 = NULL, head_ipv6 = NULL, num_active_node = 0\<rparr>"

section \<open>The Python object layer (\_radix.c)\<close>

text \<open>
  \<^verbatim>\<open>RadixObject\<close>: the tree and the generation counter, an \<^verbatim>\<open>unsigned int\<close>.
  \<open>user_attr\<close> holds, for the handle of each \<^verbatim>\<open>RadixNodeObject\<close>, the dictionary
  that the object exposes as \<^verbatim>\<open>data\<close>.
\<close>

record RadixObject =
  rt :: radix_tree_t
  gen_id :: "32 word"
  user_attr :: "nat \<Rightarrow> (string \<rightharpoonup> string)"

datatype py_error = MemoryError | KeyError | RuntimeWarning | NoObject

definition newRadixObject :: RadixObject where
  "newRadixObject = \<lparr>rt = New_Radix, gen_id = 0, user_attr = (\<lambda>h. Map.empty)\<rparr>"

text \<open>
  \<^verbatim>\<open>newRadixNodeObject\<close>: null when the sanity check on the node fails; otherwise
  what the object allocation gives, \<open>new_obj\<close> (\<open>None\<close> when it fails).
\<close>

definition newRadixNodeObject :: "nat option \<Rightarrow> radix_node_t \<Rightarrow> nat option" where
  "newRadixNodeObject new_obj n =
     (if n = NULL \<or> n_prefix n = None then None else new_obj)"

definition set_data :: "radix_node_t \<Rightarrow> nat option \<Rightarrow> radix_node_t" where
  "set_data n d = (case n of NULL \<Rightarrow> NULL | Node b p dt lc rc \<Rightarrow> Node b p d lc rc)"

definition create_add_node ::
  "nat \<Rightarrow> nat option \<Rightarrow> RadixObject \<Rightarrow> prefix_t \<Rightarrow> fault + (RadixObject \<times> (py_error + nat))" where
  "create_add_node avail new_obj self p =
     (case radix_lookup avail (rt self) p of
        Inl f \<Rightarrow> Inl f
      | Inr (rt', None) \<Rightarrow> Inr (self\<lparr>rt := rt'\<rparr>, Inl MemoryError)
      | Inr (rt', Some np) \<Rightarrow>
          (let head = RADIX_HEAD_BY_PREFIX rt' p; node = node_at head np in
           case n_data node of
             None \<Rightarrow>
               (case newRadixNodeObject new_obj node of
                  None \<Rightarrow> Inr (self\<lparr>rt := rt'\<rparr>, Inl NoObject)
                | Some h \<Rightarrow>
                    Inr (self\<lparr>rt := set_head rt' p (replace_at head np (set_data node (Some h))),
                              gen_id := gen_id self + 1,
                              user_attr := (user_attr self)(h := Map.empty)\<rparr>, Inr h))
           | Some h \<Rightarrow> Inr (self\<lparr>rt := rt', gen_id := gen_id self + 1\<rparr>, Inr h)))"

text \<open>
  \<^verbatim>\<open>Radix_delete\<close>, from the parsed prefix on. \<open>Inr None\<close> is the return of \<^verbatim>\<open>None\<close>.
\<close>

definition Radix_delete ::
  "(nat \<Rightarrow> bool) \<Rightarrow> RadixObject \<Rightarrow> prefix_t \<Rightarrow> fault + (RadixObject \<times> py_error option)" where
  "Radix_delete oob self p =
     (case radix_search_exact oob (rt self) p of
        None \<Rightarrow> Inr (self, Some KeyError)
      | Some np \<Rightarrow>
          (case radix_remove (rt self) (family p) np of
             Inl f \<Rightarrow> Inl f
           | Inr rt' \<Rightarrow> Inr (self\<lparr>rt := rt', gen_id := gen_id self + 1\<rparr>, None)))"

text \<open>Python code storing into the \<^verbatim>\<open>data\<close> dictionary of a node object.\<close>

definition store_user_attr :: "RadixObject \<Rightarrow> nat \<Rightarrow> string \<Rightarrow> string \<Rightarrow> RadixObject" where
  "store_user_attr self h k v = self\<lparr>user_attr := (user_attr self)(h := (user_attr self h)(k \<mapsto> v))\<rparr>"

text \<open>
  \<^verbatim>\<open>RadixIterObject\<close>. \<open>rn\<close> and the entries of \<open>iterstack\<close> point into the tree; each
  is held here as the subtree it points to. \<open>iterstack\<close> lists the stack from \<open>sp\<close>
  down, so an empty list is \<open>sp == iterstack\<close>.
\<close>

record RadixIterObject =
  iterstack :: "radix_node_t list"
  rn :: radix_node_t
  af :: family
  it_gen_id :: "32 word"

definition newRadixIterObject :: "RadixObject \<Rightarrow> RadixIterObject" where
  "newRadixIterObject parent =
     \<lparr>iterstack = [], rn = head_ipv4 (rt parent), af = AF_INET, it_gen_id = gen_id parent\<rparr>"

text \<open>The step "Get next node" of \<^verbatim>\<open>RadixIter_iternext\<close>, on \<open>sp\<close> and \<open>rn\<close>.\<close>

definition iter_step :: "radix_node_t list \<Rightarrow> radix_node_t \<Rightarrow> radix_node_t list \<times> radix_node_t" where
  "iter_step sp n =
     (if n_l n \<noteq> NULL then
        (if n_r n \<noteq> NULL then (n_r n # sp, n_l n) else (sp, n_l n))
      else if n_r n \<noteq> NULL then (sp, n_r n)
      else (case sp of x # xs \<Rightarrow> (xs, x) | [] \<Rightarrow> ([], NULL)))"

text \<open>
  The loop at the label \<^verbatim>\<open>again\<close>: the iterator fields when it leaves, and the node to
  return (\<open>None\<close> when both trees are walked).
\<close>

function iter_again ::
  "radix_tree_t \<Rightarrow> radix_node_t list \<Rightarrow> radix_node_t \<Rightarrow> family
   \<Rightarrow> (radix_node_t list \<times> radix_node_t \<times> family) \<times> radix_node_t option" where
  "iter_again tree sp NULL a =
     (if a = AF_INET6 then ((sp, NULL, a), None)
      else iter_again tree [] (head_ipv6 tree) AF_INET6)"
| "iter_again tree sp (Node b p dt lc rc) a =
     (case iter_step sp (Node b p dt lc rc) of
        (sp', rn') \<Rightarrow>
          if p = None \<or> dt = None then iter_again tree sp' rn' a
          else ((sp', rn', a), Some (Node b p dt lc rc)))"
  by pat_completeness auto


lemma iter_step_nodes:
  "iter_step sp (Node b p dt lc rc) = (sp', n') \<Longrightarrow>
   nodes n' + sum_list (map nodes sp') < Suc (nodes lc + nodes rc) + sum_list (map nodes sp)"
  by (auto simp: iter_step_def split: if_splits list.splits)

termination iter_again
proof (relation "measure (\<lambda>(tree, sp, n, a).
          (if a = AF_INET then Suc (nodes (head_ipv6 tree)) else 0)
          + nodes n + sum_list (map nodes sp))", goal_cases)
  case 1
  show ?case by simp
next
  case (2 tree sp a)
  then show ?case by (cases a) auto
next
  case (3 tree sp b p dt lc rc a x xa)
  from iter_step_nodes [OF 3(1) [symmetric]] show ?case by simp
qed

text \<open>
  \<^verbatim>\<open>RadixIter_iternext\<close>: the iterator after the call and what the call gives:
  the \<^verbatim>\<open>RuntimeWarning\<close>, the end of the iteration (\<open>Inr None\<close>) or the object of a node.
\<close>

definition RadixIter_iternext ::
  "RadixObject \<Rightarrow> RadixIterObject \<Rightarrow> RadixIterObject \<times> (py_error + nat option)" where
  "RadixIter_iternext parent self =
     (if it_gen_id self \<noteq> gen_id parent then (self, Inl RuntimeWarning)
      else case iter_again (rt parent) (iterstack self) (rn self) (af self) of
             ((sp', rn', a'), found) \<Rightarrow>
               (self\<lparr>iterstack := sp', rn := rn', af := a'\<rparr>,
                Inr (case found of None \<Rightarrow> None | Some node \<Rightarrow> n_data node)))"


section \<open>Example trees\<close>

definition ip4 :: "8 word \<Rightarrow> 8 word \<Rightarrow> 8 word \<Rightarrow> 8 word \<Rightarrow> nat \<Rightarrow> prefix_t" where
  "ip4 a b c d n = \<lparr>family = AF_INET, bitlen = n, add = [a, b, c, d]\<rparr>"

definition net_0_0 :: prefix_t where
  "net_0_0 = ip4 0 0 0 0 0"

definition net_0_1 :: prefix_t where
  "net_0_1 = ip4 0 0 0 0 1"

definition net_128_1 :: prefix_t where
  "net_128_1 = ip4 128 0 0 0 1"

definition no_oob :: "nat \<Rightarrow> bool" where
  "no_oob b = False"

text \<open>The tree holding 0.0.0.0/0, 0.0.0.0/1 and 128.0.0.0/1, with node objects 0, 1, 2.\<close>

definition tree_fork :: radix_tree_t where
  "tree_fork =
     \<lparr>head_ipv4 =
        Node 0 (Some net_0_0) (Some 0)
          (Node 1 (Some net_0_1) (Some 1) NULL NULL)
          (Node 1 (Some net_128_1) (Some 2) NULL NULL),
      head_ipv6 = NULL, num_active_node = 3\<rparr>"

definition obj_fork :: RadixObject where
  "obj_fork = \<lparr>rt = tree_fork, gen_id = 3, user_attr = (\<lambda>h. Map.empty)\<rparr>"

text \<open>The same tree after 0.0.0.0/0 has been deleted: its node stays, as glue.\<close>

definition tree_fork_glue :: radix_tree_t where
  "tree_fork_glue =
     \<lparr>head_ipv4 =
        Node 0 None None
          (Node 1 (Some net_0_1) (Some 1) NULL NULL)
          (Node 1 (Some net_128_1) (Some 2) NULL NULL),
      head_ipv6 = NULL, num_active_node = 3\<rparr>"

text \<open>The tree holding 0.0.0.0/1 alone.\<close>

definition tree_single :: radix_tree_t where
  "tree_single =
     \<lparr>head_ipv4 = Node 1 (Some net_0_1) (Some 0) NULL NULL,
      head_ipv6 = NULL, num_active_node = 1\<rparr>"

definition obj_single :: RadixObject where
  "obj_single = \<lparr>rt = tree_single, gen_id = 1, user_attr = (\<lambda>h. Map.empty)\<rparr>"

section \<open>Counters: active nodes and generation\<close>

lemma radix_remove_active:
  assumes "radix_remove radix fam np = Inr radix'"
  shows "num_active_node radix' =
     (let head = head_by_family radix fam; n = node_at head np in
      if n_l n \<noteq> NULL \<and> n_r n \<noteq> NULL then num_active_node radix
      else if n_l n = NULL \<and> n_r n = NULL \<and> np \<noteq> [] \<and>
              n_prefix (node_at head (butlast np)) = None
      then num_active_node radix - 2
      else num_active_node radix - 1)"
  using assms
  by (auto simp: radix_remove_def Let_def set_head_def
      split: radix_node_t.splits option.splits if_splits)

lemma search_exact_fork: "radix_search_exact no_oob tree_fork net_0_0 = Some []"
  by code_simp

lemma remove_fork_root: "radix_remove tree_fork AF_INET [] = Inr tree_fork_glue"
  by code_simp

lemma search_exact_fork_leaf: "radix_search_exact no_oob tree_fork net_0_1 = Some [False]"
  by code_simp

lemma obj_fork_sel: "rt obj_fork = tree_fork" "gen_id obj_fork = 3"
  by (simp_all add: obj_fork_def)

lemma ip4_sel: "family (ip4 a b c d n) = AF_INET" "bitlen (ip4 a b c d n) = n"
  "add (ip4 a b c d n) = [a, b, c, d]"
  by (simp_all add: ip4_def)

lemma delete_fork_root:
  "Radix_delete no_oob obj_fork net_0_0
     = Inr (obj_fork\<lparr>rt := tree_fork_glue, gen_id := 4\<rparr>, None)"
  unfolding Radix_delete_def obj_fork_sel search_exact_fork
  by (simp add: remove_fork_root net_0_0_def ip4_sel)

text \<open>The tree of 0.0.0.0/0, 0.0.0.0/1 and 128.0.0.0/1 after 0.0.0.0/1 has been deleted.\<close>

definition tree_fork_cut :: radix_tree_t where
  "tree_fork_cut =
     \<lparr>head_ipv4 =
        Node 0 (Some net_0_0) (Some 0) NULL
          (Node 1 (Some net_128_1) (Some 2) NULL NULL),
      head_ipv6 = NULL, num_active_node = 2\<rparr>"

text \<open>
  The tree of a glue node over 0.0.0.0/1 and 128.0.0.0/1 after 0.0.0.0/1 has been
  deleted: the glue node has gone with it.
\<close>

definition tree_glue_cut :: radix_tree_t where
  "tree_glue_cut =
     \<lparr>head_ipv4 = Node 1 (Some net_128_1) (Some 2) NULL NULL,
      head_ipv6 = NULL, num_active_node = 1\<rparr>"

definition obj_fork_glue :: RadixObject where
  "obj_fork_glue = \<lparr>rt = tree_fork_glue, gen_id = 4, user_attr = (\<lambda>h. Map.empty)\<rparr>"

lemma remove_fork_leaf_cut: "radix_remove tree_fork AF_INET [False] = Inr tree_fork_cut"
  by code_simp

lemma search_exact_glue_leaf: "radix_search_exact no_oob tree_fork_glue net_0_1 = Some [False]"
  by code_simp

lemma remove_glue_leaf: "radix_remove tree_fork_glue AF_INET [False] = Inr tree_glue_cut"
  by code_simp

lemma obj_fork_glue_sel: "rt obj_fork_glue = tree_fork_glue" "gen_id obj_fork_glue = 4"
  by (simp_all add: obj_fork_glue_def)

lemma delete_fork_leaf:
  "Radix_delete no_oob obj_fork net_0_1
     = Inr (obj_fork\<lparr>rt := tree_fork_cut, gen_id := 4\<rparr>, None)"
  unfolding Radix_delete_def obj_fork_sel search_exact_fork_leaf
  by (simp add: remove_fork_leaf_cut net_0_1_def ip4_sel)

lemma delete_glue_leaf:
  "Radix_delete no_oob obj_fork_glue net_0_1
     = Inr (obj_fork_glue\<lparr>rt := tree_glue_cut, gen_id := 5\<rparr>, None)"
  unfolding Radix_delete_def obj_fork_glue_sel search_exact_glue_leaf
  by (simp add: remove_glue_leaf net_0_1_def ip4_sel)

text \<open>
  Claim C4 as stated fails for a node with two children: deleting 0.0.0.0/0 from the
  tree of 0.0.0.0/0, 0.0.0.0/1 and 128.0.0.0/1 keeps the node as glue, and the
  counter of active nodes stays at 3.
\<close>

theorem C4_two_children_counterexample:
  "Radix_delete no_oob obj_fork net_0_0
     = Inr (obj_fork\<lparr>rt := tree_fork_glue, gen_id := 4\<rparr>, None)
   \<and> \<not> num_active_node tree_fork_glue < num_active_node (rt obj_fork)"
  by (simp add: delete_fork_root obj_fork_sel) (simp add: tree_fork_glue_def tree_fork_def)

text \<open>
  Claim C4, amended: a delete that finds its prefix adds one to the generation
  counter. It leaves the counter of active nodes unchanged when the node has two
  children (the node stays as a glue node); it takes 2 from the counter when the node
  has no child and hangs under a glue node, which is removed with it; and it takes 1
  from the counter in every other case.
\<close>

theorem C4_delete_counters:
  assumes "Radix_delete oob self p = Inr (self', None)"
  shows "gen_id self' = gen_id self + 1 \<and>
    (\<exists>np. radix_search_exact oob (rt self) p = Some np \<and>
       (let head = head_by_family (rt self) (family p); n = node_at head np in
        if n_l n \<noteq> NULL \<and> n_r n \<noteq> NULL
        then num_active_node (rt self') = num_active_node (rt self)
        else if n_l n = NULL \<and> n_r n = NULL \<and> np \<noteq> [] \<and>
                n_prefix (node_at head (butlast np)) = None
        then num_active_node (rt self') = num_active_node (rt self) - 2
        else num_active_node (rt self') = num_active_node (rt self) - 1))"
proof (cases "radix_search_exact oob (rt self) p")
  case None
  with assms show ?thesis by (simp add: Radix_delete_def)
next
  case (Some np)
  with assms obtain t' where rem: "radix_remove (rt self) (family p) np = Inr t'"
    and self': "self' = self\<lparr>rt := t', gen_id := gen_id self + 1\<rparr>"
    by (auto simp: Radix_delete_def split: sum.splits)
  from radix_remove_active [OF rem] Some self' show ?thesis
    by (auto simp: Let_def split: if_splits)
qed

theorem C4_delete_counters_witness:
  "Radix_delete no_oob obj_fork net_0_0
     = Inr (obj_fork\<lparr>rt := tree_fork_glue, gen_id := 4\<rparr>, None)
   \<and> num_active_node tree_fork_glue = num_active_node tree_fork
   \<and> Radix_delete no_oob obj_fork net_0_1
     = Inr (obj_fork\<lparr>rt := tree_fork_cut, gen_id := 4\<rparr>, None)
   \<and> num_active_node tree_fork_cut = num_active_node tree_fork - 1
   \<and> num_active_node tree_fork_cut < num_active_node tree_fork
   \<and> Radix_delete no_oob obj_fork_glue net_0_1
     = Inr (obj_fork_glue\<lparr>rt := tree_glue_cut, gen_id := 5\<rparr>, None)
   \<and> num_active_node tree_glue_cut = num_active_node tree_fork_glue - 2
   \<and> num_active_node tree_glue_cut < num_active_node tree_fork_glue
   \<and> gen_id (obj_fork\<lparr>rt := tree_fork_cut, gen_id := 4\<rparr>) = gen_id obj_fork + 1"
proof -
  have hs: "head_by_family tree_fork AF_INET = head_ipv4 tree_fork"
    "head_by_family tree_fork_glue AF_INET = head_ipv4 tree_fork_glue"
    by (simp_all add: head_by_family_def)
  have fam: "family net_0_0 = AF_INET" "family net_0_1 = AF_INET"
    by (simp_all add: net_0_0_def net_0_1_def ip4_sel)
  note root = C4_delete_counters [OF delete_fork_root,
      unfolded obj_fork_sel search_exact_fork fam hs]
  note leaf = C4_delete_counters [OF delete_fork_leaf,
      unfolded obj_fork_sel search_exact_fork_leaf fam hs]
  note glue = C4_delete_counters [OF delete_glue_leaf,
      unfolded obj_fork_glue_sel search_exact_glue_leaf fam hs]
  from root have a: "num_active_node tree_fork_glue = num_active_node tree_fork"
    by (auto simp: Let_def tree_fork_def)
  from leaf have b: "num_active_node tree_fork_cut = num_active_node tree_fork - 1"
    by (auto simp: Let_def tree_fork_def)
  from leaf have g: "gen_id (obj_fork\<lparr>rt := tree_fork_cut, gen_id := 4\<rparr>) = gen_id obj_fork + 1"
    by (simp add: obj_fork_sel)
  from glue have c: "num_active_node tree_glue_cut = num_active_node tree_fork_glue - 2"
    by (auto simp: Let_def tree_fork_glue_def)
  have lt: "num_active_node tree_fork_cut < num_active_node tree_fork"
    "num_active_node tree_glue_cut < num_active_node tree_fork_glue"
    using b c by simp_all
  from a b c g lt delete_fork_root delete_fork_leaf delete_glue_leaf show ?thesis
    by blast
qed


lemma create_add_node_gen:
  assumes "create_add_node avail new_obj self p = Inr (self', r)"
  shows "(\<forall>h. r = Inr h \<longrightarrow> gen_id self' = gen_id self + 1)
       \<and> (r = Inl MemoryError \<longrightarrow> gen_id self' = gen_id self)"
  using assms
  by (auto simp: create_add_node_def Let_def split: sum.splits prod.splits option.splits)

lemma Radix_delete_gen:
  assumes "Radix_delete oob self p = Inr (self', e)"
  shows "(e = None \<longrightarrow> gen_id self' = gen_id self + 1) \<and> (e \<noteq> None \<longrightarrow> self' = self)"
  using assms
  by (auto simp: Radix_delete_def split: sum.splits option.splits)

lemma lookup_single_again:
  "radix_lookup 2 tree_single net_0_1 = Inr (tree_single, Some [])"
  by code_simp

lemma obj_single_sel: "rt obj_single = tree_single" "gen_id obj_single = 1"
  by (simp_all add: obj_single_def)

lemma add_single_again:
  "create_add_node 2 None obj_single net_0_1 = Inr (obj_single\<lparr>gen_id := 2\<rparr>, Inr 0)"
proof -
  have "node_at (RADIX_HEAD_BY_PREFIX tree_single net_0_1) []
          = Node 1 (Some net_0_1) (Some 0) NULL NULL"
    by (simp add: RADIX_HEAD_BY_PREFIX_def ip4_sel tree_single_def net_0_1_def)
  then show ?thesis
    unfolding create_add_node_def obj_single_sel lookup_single_again
    by (simp add: obj_single_def)
qed

lemma delete_absent:
  "Radix_delete no_oob obj_single net_128_1 = Inr (obj_single, Some KeyError)"
proof -
  have "radix_search_exact no_oob tree_single net_128_1 = None"
    by code_simp
  then show ?thesis unfolding Radix_delete_def obj_single_sel by simp
qed

lemma add_no_memory:
  "create_add_node 0 None obj_single net_128_1 = Inr (obj_single, Inl MemoryError)"
proof -
  have "radix_lookup 0 tree_single net_128_1 = Inr (tree_single, None)"
    by code_simp
  then show ?thesis
    unfolding create_add_node_def obj_single_sel by (simp add: obj_single_def)
qed

text \<open>
  Claim C5 as stated fails for an insert of a stored prefix: adding 0.0.0.0/1 to the
  tree that holds it creates no node, the tree is unchanged, and the generation
  counter goes from 1 to 2.
\<close>

theorem C5_reinsert_counterexample:
  "create_add_node 2 None obj_single net_0_1 = Inr (obj_single\<lparr>gen_id := 2\<rparr>, Inr 0)
   \<and> rt (obj_single\<lparr>gen_id := 2\<rparr>) = rt obj_single
   \<and> gen_id (obj_single\<lparr>gen_id := 2\<rparr>) \<noteq> gen_id obj_single"
  by (simp add: add_single_again obj_single_sel)

text \<open>
  Claim C5, amended: the generation counter goes up by one on every add that returns
  a node object, whether or not a node was created, and on every delete that finds its
  prefix. An add that \<^verbatim>\<open>radix_lookup\<close> refuses for lack of memory, a delete of an absent
  prefix and a store into the payload of a node leave it unchanged.
\<close>

theorem C5_generation:
  "(create_add_node avail1 new_obj1 self1 p1 = Inr (self1', Inr h1)
      \<longrightarrow> gen_id self1' = gen_id self1 + 1)
   \<and> (create_add_node avail2 new_obj2 self2 p2 = Inr (self2', Inl MemoryError)
      \<longrightarrow> gen_id self2' = gen_id self2)
   \<and> (Radix_delete oob3 self3 p3 = Inr (self3', None)
      \<longrightarrow> gen_id self3' = gen_id self3 + 1)
   \<and> (Radix_delete oob4 self4 p4 = Inr (self4', Some e4)
      \<longrightarrow> gen_id self4' = gen_id self4)
   \<and> gen_id (store_user_attr self5 h5 k5 v5) = gen_id self5"
  using create_add_node_gen [of avail1 new_obj1 self1 p1 self1' "Inr h1"]
    create_add_node_gen [of avail2 new_obj2 self2 p2 self2' "Inl MemoryError"]
    Radix_delete_gen [of oob3 self3 p3 self3' None]
    Radix_delete_gen [of oob4 self4 p4 self4' "Some e4"]
  by (auto simp: store_user_attr_def)

theorem C5_generation_witness:
  "create_add_node 2 None obj_single net_0_1 = Inr (obj_single\<lparr>gen_id := 2\<rparr>, Inr 0)
   \<and> gen_id (obj_single\<lparr>gen_id := 2\<rparr>) = gen_id obj_single + 1
   \<and> create_add_node 0 None obj_single net_128_1 = Inr (obj_single, Inl MemoryError)
   \<and> Radix_delete no_oob obj_fork net_0_0
        = Inr (obj_fork\<lparr>rt := tree_fork_glue, gen_id := 4\<rparr>, None)
   \<and> gen_id (obj_fork\<lparr>rt := tree_fork_glue, gen_id := 4\<rparr>) = gen_id obj_fork + 1
   \<and> Radix_delete no_oob obj_single net_128_1 = Inr (obj_single, Some KeyError)
   \<and> gen_id (store_user_attr obj_single 0 ''blah'' ''x'') = gen_id obj_single"
  using C5_generation [of 2 None obj_single net_0_1 "obj_single\<lparr>gen_id := 2\<rparr>" 0
      0 None obj_single net_128_1 obj_single
      no_oob obj_fork net_0_0 "obj_fork\<lparr>rt := tree_fork_glue, gen_id := 4\<rparr>"
      no_oob obj_single net_128_1 obj_single KeyError
      obj_single 0 "''blah''" "''x''"]
    add_single_again add_no_memory delete_fork_root delete_absent
  by simp

section \<open>Allocation failure in \<^verbatim>\<open>radix_lookup\<close>\<close>

lemma lookup_attach_no_memory:
  "lookup_attach 0 radix p test_addr differ_bit np = Inr (radix', None) \<Longrightarrow> radix' = radix"
  by (auto simp: lookup_attach_def Let_def split: if_splits)

text \<open>
  When the first allocation of a call fails (the fresh root, or the new real node),
  the null return comes with the tree as it was.
\<close>

lemma lookup_no_memory_unchanged:
  assumes "radix_lookup 0 radix p = Inr (radix', None)"
  shows "radix' = radix"
  using assms
  by (auto simp: radix_lookup_def Let_def
      split: if_splits sum.splits option.splits dest: lookup_attach_no_memory)

text \<open>
  Claim C7 on the code: inserting 128.0.0.0/1 into the tree of 0.0.0.0/1 needs a new
  real node and a glue node at bit 0. When the first allocation succeeds and the
  second fails, \<^verbatim>\<open>radix_lookup\<close> returns null with the heads as they were, but with
  the counter of active nodes raised from 1 to 2 for the node it has allocated and
  does not free.
\<close>

theorem C7_glue_allocation_failure:
  "radix_lookup 1 tree_single net_128_1
     = Inr (tree_single\<lparr>num_active_node := 2\<rparr>, None)
   \<and> num_active_node (tree_single\<lparr>num_active_node := 2\<rparr>) \<noteq> num_active_node tree_single"
proof -
  have "radix_lookup 1 tree_single net_128_1
          = Inr (\<lparr>head_ipv4 = Node 1 (Some net_0_1) (Some 0) NULL NULL,
                  head_ipv6 = NULL, num_active_node = 2\<rparr>, None)"
    by code_simp
  then show ?thesis by (simp add: tree_single_def)
qed


section \<open>Iteration\<close>

text \<open>
  The nodes an iterator has still to visit, in the order of its walk: the subtree at
  \<open>rn\<close>, the subtrees on the stack from the top down, then the IPv6 tree when the
  walk is still in the IPv4 tree.
\<close>

fun preorder :: "radix_node_t \<Rightarrow> radix_node_t list" where
  "preorder NULL = []"
| "preorder (Node b p dt lc rc) = Node b p dt lc rc # preorder lc @ preorder rc"

definition pending :: "radix_tree_t \<Rightarrow> radix_node_t list \<Rightarrow> radix_node_t \<Rightarrow> family \<Rightarrow> radix_node_t list" where
  "pending tree sp n a =
     (if n = NULL then [] else preorder n @ concat (map preorder sp))
     @ (if a = AF_INET then preorder (head_ipv6 tree) else [])"

definition payload :: "radix_node_t \<Rightarrow> bool" where
  "payload n = (n \<noteq> NULL \<and> n_prefix n \<noteq> None \<and> n_data n \<noteq> None)"

lemma iter_step_pending:
  assumes "NULL \<notin> set sp" "iter_step sp (Node b p dt lc rc) = (sp', n')"
  shows "NULL \<notin> set sp' \<and>
     (if n' = NULL then [] else preorder n' @ concat (map preorder sp'))
       = preorder lc @ preorder rc @ concat (map preorder sp)"
  using assms
  by (cases lc; cases rc; cases sp) (auto simp: iter_step_def)

lemma iter_again_pending:
  assumes "NULL \<notin> set sp" "iter_again tree sp n a = ((sp', n', a'), found)"
  shows "found = find payload (pending tree sp n a)
       \<and> pending tree sp' n' a' = drop 1 (dropWhile (\<lambda>x. \<not> payload x) (pending tree sp n a))
       \<and> NULL \<notin> set sp'"
  using assms
proof (induction tree sp n a arbitrary: sp' n' a' found rule: iter_again.induct)
  case (1 tree sp a)
  show ?case
  proof (cases a)
    case AF_INET
    with 1 show ?thesis by (auto simp: pending_def)
  next
    case AF_INET6
    with 1 show ?thesis by (auto simp: pending_def)
  qed
next
  case (2 tree sp b p dt lc rc a)
  obtain sp1 n1 where st: "iter_step sp (Node b p dt lc rc) = (sp1, n1)"
    by (cases "iter_step sp (Node b p dt lc rc)")
  from iter_step_pending [OF "2.prems"(1) st]
  have nn: "NULL \<notin> set sp1"
    and pe: "pending tree sp (Node b p dt lc rc) a = Node b p dt lc rc # pending tree sp1 n1 a"
    by (auto simp: pending_def)
  show ?case
  proof (cases "p = None \<or> dt = None")
    case True
    with "2.prems" st have "iter_again tree sp1 n1 a = ((sp', n', a'), found)" by simp
    from "2.IH" [OF st [symmetric] True nn this] True pe show ?thesis
      by (auto simp: payload_def)
  next
    case False
    with "2.prems" st nn pe show ?thesis by (auto simp: payload_def)
  qed
qed


definition tree_added :: radix_tree_t where
  "tree_added =
     \<lparr>head_ipv4 =
        Node 0 None None
          (Node 1 (Some net_0_1) (Some 0) NULL NULL)
          (Node 1 (Some net_128_1) (Some 1) NULL NULL),
      head_ipv6 = NULL, num_active_node = 3\<rparr>"

definition obj_added :: RadixObject where
  "obj_added = \<lparr>rt = tree_added, gen_id = 2, user_attr = (\<lambda>h. Map.empty)\<rparr>"

lemma lookup_single_high:
  "radix_lookup 2 tree_single net_128_1 =
     Inr (\<lparr>head_ipv4 =
        Node 0 None None
          (Node 1 (Some net_0_1) (Some 0) NULL NULL)
          (Node 1 (Some net_128_1) None NULL NULL),
      head_ipv6 = NULL, num_active_node = 3\<rparr>, Some [True])"
  by code_simp

lemma add_single_high:
  "create_add_node 2 (Some 1) obj_single net_128_1 = Inr (obj_added, Inr 1)"
  unfolding create_add_node_def obj_single_sel lookup_single_high
  by (simp add: RADIX_HEAD_BY_PREFIX_def net_128_1_def ip4_sel newRadixNodeObject_def
      set_data_def set_head_def obj_added_def tree_added_def obj_single_def fun_eq_iff)

text \<open>
  Claim C6: \<^verbatim>\<open>next\<close> raises its \<^verbatim>\<open>RuntimeWarning\<close> exactly when the generation of the tree
  differs from the one the iterator took at its construction, which no call of \<^verbatim>\<open>next\<close>
  changes. Otherwise it gives the object of the first node with a prefix and an object
  among the nodes still to visit and moves past it, or ends the iteration when there
  is none. After an add that returns a node, \<^verbatim>\<open>next\<close> on an iterator made before
  it fails; a store into the payload of a node changes nothing for \<^verbatim>\<open>next\<close>.
\<close>

theorem C6_iternext:
  "(snd (RadixIter_iternext parent self) = Inl RuntimeWarning
      \<longleftrightarrow> gen_id parent \<noteq> it_gen_id self)
   \<and> it_gen_id (fst (RadixIter_iternext parent self)) = it_gen_id self
   \<and> it_gen_id (newRadixIterObject parent) = gen_id parent
   \<and> (gen_id parent = it_gen_id self \<and> NULL \<notin> set (iterstack self) \<longrightarrow>
        (let todo = pending (rt parent) (iterstack self) (rn self) (af self);
             self' = fst (RadixIter_iternext parent self)
         in snd (RadixIter_iternext parent self)
              = Inr (case find payload todo of None \<Rightarrow> None | Some n \<Rightarrow> n_data n)
            \<and> pending (rt parent) (iterstack self') (rn self') (af self')
              = drop 1 (dropWhile (\<lambda>x. \<not> payload x) todo)
            \<and> NULL \<notin> set (iterstack self')))
   \<and> (create_add_node avail new_obj parent p = Inr (parent', Inr h)
        \<and> it_gen_id self = gen_id parent
        \<longrightarrow> snd (RadixIter_iternext parent' self) = Inl RuntimeWarning)
   \<and> RadixIter_iternext (store_user_attr parent h' k v) self = RadixIter_iternext parent self"
proof -
  have a: "snd (RadixIter_iternext parent self) = Inl RuntimeWarning
      \<longleftrightarrow> gen_id parent \<noteq> it_gen_id self"
    by (auto simp: RadixIter_iternext_def split: prod.splits)
  have b: "it_gen_id (fst (RadixIter_iternext parent self)) = it_gen_id self"
    by (auto simp: RadixIter_iternext_def split: prod.splits)
  have c: "it_gen_id (newRadixIterObject parent) = gen_id parent"
    by (simp add: newRadixIterObject_def)
  have d: "let todo = pending (rt parent) (iterstack self) (rn self) (af self);
             self' = fst (RadixIter_iternext parent self)
         in snd (RadixIter_iternext parent self)
              = Inr (case find payload todo of None \<Rightarrow> None | Some n \<Rightarrow> n_data n)
            \<and> pending (rt parent) (iterstack self') (rn self') (af self')
              = drop 1 (dropWhile (\<lambda>x. \<not> payload x) todo)
            \<and> NULL \<notin> set (iterstack self')"
    if g: "gen_id parent = it_gen_id self" and nn: "NULL \<notin> set (iterstack self)"
  proof -
    obtain sp' n' a' found where
      ia: "iter_again (rt parent) (iterstack self) (rn self) (af self) = ((sp', n', a'), found)"
      by (metis prod.exhaust)
    from iter_again_pending [OF nn ia] g ia show ?thesis
      by (simp add: RadixIter_iternext_def Let_def)
  qed
  have e: "snd (RadixIter_iternext parent' self) = Inl RuntimeWarning"
    if "create_add_node avail new_obj parent p = Inr (parent', Inr h)"
      and "it_gen_id self = gen_id parent"
  proof -
    from create_add_node_gen [OF that(1)] have "gen_id parent' = gen_id parent + 1" by simp
    with that(2) show ?thesis by (simp add: RadixIter_iternext_def)
  qed
  have f: "RadixIter_iternext (store_user_attr parent h' k v) self = RadixIter_iternext parent self"
    by (simp add: RadixIter_iternext_def store_user_attr_def)
  from a b c d e f show ?thesis by blast
qed

lemma iter_first: "RadixIter_iternext obj_single (newRadixIterObject obj_single) =
    (\<lparr>iterstack = [], rn = NULL, af = AF_INET, it_gen_id = 1\<rparr>, Inr (Some 0))"
  unfolding RadixIter_iternext_def newRadixIterObject_def obj_single_sel
  by (simp add: tree_single_def iter_step_def)

theorem C6_iternext_witness:
  "gen_id obj_single = it_gen_id (newRadixIterObject obj_single)
   \<and> NULL \<notin> set (iterstack (newRadixIterObject obj_single))
   \<and> snd (RadixIter_iternext obj_single (newRadixIterObject obj_single)) = Inr (Some 0)
   \<and> create_add_node 2 (Some 1) obj_single net_128_1 = Inr (obj_added, Inr 1)
   \<and> snd (RadixIter_iternext obj_added (newRadixIterObject obj_single)) = Inl RuntimeWarning
   \<and> snd (RadixIter_iternext (store_user_attr obj_single 0 ''blah'' ''x'')
             (newRadixIterObject obj_single)) = Inr (Some 0)"
proof -
  note c = C6_iternext [of obj_single "newRadixIterObject obj_single" 2 "Some 1" net_128_1
      obj_added 1 0 "''blah''" "''x''"]
  have g: "gen_id obj_single = it_gen_id (newRadixIterObject obj_single)"
    by (simp add: newRadixIterObject_def)
  have n: "NULL \<notin> set (iterstack (newRadixIterObject obj_single))"
    by (simp add: newRadixIterObject_def)
  have f: "snd (RadixIter_iternext obj_single (newRadixIterObject obj_single)) = Inr (Some 0)"
    by (simp add: iter_first)
  from c add_single_high g
  have e: "snd (RadixIter_iternext obj_added (newRadixIterObject obj_single)) = Inl RuntimeWarning"
    by metis
  from c f
  have s: "snd (RadixIter_iternext (store_user_attr obj_single 0 ''blah'' ''x'')
             (newRadixIterObject obj_single)) = Inr (Some 0)"
    by metis
  from g n f add_single_high e s show ?thesis by blast
qed

section \<open>Address bits\<close>

text \<open>
  Bit \<open>i\<close> of an address, counted from the most significant bit of the first byte, and
  agreement of two addresses on their first \<open>n\<close> bits.
\<close>

definition abit :: "8 word list \<Rightarrow> nat \<Rightarrow> bool" where
  "abit a i = bit (a ! (i div 8)) (7 - i mod 8)"

definition agree :: "8 word list \<Rightarrow> 8 word list \<Rightarrow> nat \<Rightarrow> bool" where
  "agree a b n = (\<forall>i<n. abit a i = abit b i)"

lemma drop_bit_top: "k < 8 \<Longrightarrow> drop_bit k (0x80 :: 8 word) = 2 ^ (7 - k)"
proof -
  assume "k < 8"
  then consider "k = 0" | "k = 1" | "k = 2" | "k = 3" | "k = 4" | "k = 5" | "k = 6" | "k = 7"
    by linarith
  then show ?thesis by cases simp_all
qed

lemma top_mask_bit: "k < 8 \<Longrightarrow> ((w :: 8 word) AND drop_bit k 0x80 \<noteq> 0) = bit w (7 - k)"
  by (simp add: drop_bit_top and_exp_eq_0_iff_not_bit)

lemma BIT_TEST_SEARCH_BIT_abit:
  "b div 8 < length a \<Longrightarrow> BIT_TEST_SEARCH_BIT a b = Some (abit a b)"
  by (simp add: BIT_TEST_SEARCH_BIT_def abit_def top_mask_bit)

lemma BIT_TEST_SEARCH_BIT_None:
  "BIT_TEST_SEARCH_BIT a b = None \<longleftrightarrow> \<not> b div 8 < length a"
  by (simp add: BIT_TEST_SEARCH_BIT_def)

lemma mask_byte_eq:
  "k \<le> 8 \<Longrightarrow> ((ucast (x :: 8 word) AND push_bit k (NOT 0 :: 32 word)) = (ucast (y :: 8 word) AND push_bit k (NOT 0)))
     = (\<forall>i. k \<le> i \<and> i < 8 \<longrightarrow> bit x i = bit y i)"
proof
  assume l: "ucast x AND push_bit k (NOT 0 :: 32 word) = ucast y AND push_bit k (NOT 0)"
  show "\<forall>i. k \<le> i \<and> i < 8 \<longrightarrow> bit x i = bit y i"
  proof (intro allI impI)
    fix i assume i: "k \<le> i \<and> i < 8"
    from l have "bit (ucast x AND push_bit k (NOT 0 :: 32 word)) i
        = bit (ucast y AND push_bit k (NOT 0 :: 32 word)) i" by simp
    with i show "bit x i = bit y i" by (simp add: bit_simps)
  qed
next
  assume r: "\<forall>i. k \<le> i \<and> i < 8 \<longrightarrow> bit x i = bit y i"
  show "ucast x AND push_bit k (NOT 0 :: 32 word) = ucast y AND push_bit k (NOT 0)"
  proof (rule bit_eqI)
    fix n
    show "bit (ucast x AND push_bit k (NOT 0 :: 32 word)) n
        = bit (ucast y AND push_bit k (NOT 0 :: 32 word)) n"
      using r by (cases "n < 8") (auto simp: bit_simps dest: bit_imp_le_length)
  qed
qed

lemma agree_whole_byte:
  assumes ag: "agree a b n" and j: "j < n div 8"
  shows "a ! j = b ! j"
proof (rule bit_eqI)
  fix m
  show "bit (a ! j) m = bit (b ! j) m"
  proof (cases "m < 8")
    case True
    define k where "k = 7 - m"
    with True have k: "k < 8" "7 - k = m" by auto
    from j k have "8 * j + k < n" by linarith
    with ag have "abit a (8 * j + k) = abit b (8 * j + k)" by (simp add: agree_def)
    moreover have "(8 * j + k) div 8 = j" "(8 * j + k) mod 8 = k" using k by auto
    ultimately show ?thesis using k by (simp add: abit_def)
  next
    case False
    then show ?thesis by (auto dest: bit_imp_le_length)
  qed
qed

lemma agree_last_byte:
  assumes ag: "agree a b n" and t: "t < n mod 8"
  shows "bit (a ! (n div 8)) (7 - t) = bit (b ! (n div 8)) (7 - t)"
proof -
  let ?i = "8 * (n div 8) + t"
  have "n = ?i - t + n mod 8" by simp
  with t have "?i < n" by linarith
  with ag have "abit a ?i = abit b ?i" by (simp add: agree_def)
  moreover have "?i div 8 = n div 8" "?i mod 8 = t" using t by auto
  ultimately show ?thesis by (simp add: abit_def)
qed

lemma agree_from_bytes:
  assumes w: "\<forall>j < n div 8. a ! j = b ! j"
    and l: "\<forall>t < n mod 8. bit (a ! (n div 8)) (7 - t) = bit (b ! (n div 8)) (7 - t)"
  shows "agree a b n"
  unfolding agree_def
proof (intro allI impI)
  fix i assume i: "i < n"
  show "abit a i = abit b i"
  proof (cases "i div 8 < n div 8")
    case True
    with w show ?thesis by (simp add: abit_def)
  next
    case False
    have dn: "n = 8 * (n div 8) + n mod 8" and di: "i = 8 * (i div 8) + i mod 8" by simp_all
    have "n div 8 \<le> i div 8" using False by simp
    moreover have "i div 8 \<le> n div 8" using i by (simp add: div_le_mono)
    ultimately have e: "i div 8 = n div 8" by simp
    have "i mod 8 < n mod 8"
    proof (rule ccontr)
      assume "\<not> i mod 8 < n mod 8"
      then have h: "n mod 8 \<le> i mod 8" by simp
      have "n = 8 * (n div 8) + n mod 8" by simp
      also have "\<dots> \<le> 8 * (n div 8) + i mod 8" using h by (rule add_left_mono)
      also have "\<dots> = 8 * (i div 8) + i mod 8" using e by (rule_tac arg_cong2 [where f = "(+)"]) simp_all
      also have "\<dots> = i" by simp
      finally show False using i by simp
    qed
    note e this
    with l show ?thesis by (simp add: abit_def)
  qed
qed

lemma agree_bytes:
  "agree a b n \<longleftrightarrow>
     (\<forall>j < n div 8. a ! j = b ! j) \<and>
     (\<forall>t < n mod 8. bit (a ! (n div 8)) (7 - t) = bit (b ! (n div 8)) (7 - t))"
proof
  assume "agree a b n"
  then show "(\<forall>j < n div 8. a ! j = b ! j) \<and>
     (\<forall>t < n mod 8. bit (a ! (n div 8)) (7 - t) = bit (b ! (n div 8)) (7 - t))"
    using agree_whole_byte [of a b n] agree_last_byte [of a b n] by simp
next
  assume "(\<forall>j < n div 8. a ! j = b ! j) \<and>
     (\<forall>t < n mod 8. bit (a ! (n div 8)) (7 - t) = bit (b ! (n div 8)) (7 - t))"
  then show "agree a b n" using agree_from_bytes [of n a b] by simp
qed

lemma top_bits_reindex:
  fixes x y :: "8 word"
  assumes "m < 8"
  shows "(\<forall>i. 8 - m \<le> i \<and> i < 8 \<longrightarrow> bit x i = bit y i)
       = (\<forall>t < m. bit x (7 - t) = bit y (7 - t))"
proof
  assume h: "\<forall>i. 8 - m \<le> i \<and> i < 8 \<longrightarrow> bit x i = bit y i"
  show "\<forall>t < m. bit x (7 - t) = bit y (7 - t)"
  proof (intro allI impI)
    fix t assume "t < m"
    with assms have "8 - m \<le> 7 - t \<and> 7 - t < 8" by linarith
    with h show "bit x (7 - t) = bit y (7 - t)" by blast
  qed
next
  assume h: "\<forall>t < m. bit x (7 - t) = bit y (7 - t)"
  show "\<forall>i. 8 - m \<le> i \<and> i < 8 \<longrightarrow> bit x i = bit y i"
  proof (intro allI impI)
    fix i assume i: "8 - m \<le> i \<and> i < 8"
    with assms have a: "7 - i < m" and b: "7 - (7 - i) = i" by linarith+
    from h a have "bit x (7 - (7 - i)) = bit y (7 - (7 - i))" by blast
    with b show "bit x i = bit y i" by simp
  qed
qed

lemma take_eq_nth:
  assumes "k \<le> length a" "k \<le> length b"
  shows "(take k a = take k b) = (\<forall>j < k. a ! j = b ! j)"
  using assms by (auto simp: list_eq_iff_nth_eq)

lemma comp_with_mask_agree:
  assumes "n \<le> 8 * length a" "n \<le> 8 * length b"
  shows "comp_with_mask a b n = agree a b n"
proof -
  from assms have la: "n div 8 \<le> length a" and lb: "n div 8 \<le> length b" by auto
  note tk = take_eq_nth [OF la lb]
  have m8: "n mod 8 < 8" by simp
  have ms: "(n mod 8 = 0 \<or>
       (ucast (a ! (n div 8)) AND push_bit (8 - n mod 8) (NOT 0 :: 32 word))
         = (ucast (b ! (n div 8)) AND push_bit (8 - n mod 8) (NOT 0)))
     = (\<forall>t < n mod 8. bit (a ! (n div 8)) (7 - t) = bit (b ! (n div 8)) (7 - t))"
  proof (cases "n mod 8 = 0")
    case True
    then show ?thesis by simp
  next
    case False
    have le: "8 - n mod 8 \<le> 8" by simp
    show ?thesis
      unfolding mask_byte_eq [OF le] top_bits_reindex [OF m8]
      using False by simp
  qed
  have "comp_with_mask a b n =
     ((\<forall>j < n div 8. a ! j = b ! j) \<and>
      (\<forall>t < n mod 8. bit (a ! (n div 8)) (7 - t) = bit (b ! (n div 8)) (7 - t)))"
    unfolding comp_with_mask_def Let_def tk ms by simp
  then show ?thesis by (simp only: agree_bytes)
qed


lemma first_set_scan:
  assumes "j \<le> 8" "\<forall>t<j. \<not> bit r (7 - t)"
  shows "j \<le> first_set r j \<and> first_set r j \<le> 8
       \<and> (first_set r j < 8 \<longrightarrow> bit r (7 - first_set r j))
       \<and> (\<forall>t < first_set r j. \<not> bit r (7 - t))"
  using assms
proof (induction r j rule: first_set.induct)
  case (1 r j)
  show ?case
  proof (cases "j < 8")
    case False
    then have "first_set r j = j" by (simp add: first_set.simps [of r j])
    with False 1 show ?thesis by simp
  next
    case True
    show ?thesis
    proof (cases "r AND drop_bit j 0x80 \<noteq> 0")
      case hit: True
      with True have "bit r (7 - j)" by (simp add: top_mask_bit)
      with True hit 1 show ?thesis by (simp add: first_set.simps [of r j])
    next
      case miss: False
      with True have nb: "\<not> bit r (7 - j)" by (simp add: top_mask_bit)
      have "\<forall>t<j + 1. \<not> bit r (7 - t)"
        using "1.prems"(2) nb by (auto simp: less_Suc_eq)
      with "1.IH" [OF True miss] True
      have "j + 1 \<le> first_set r (j + 1) \<and> first_set r (j + 1) \<le> 8
       \<and> (first_set r (j + 1) < 8 \<longrightarrow> bit r (7 - first_set r (j + 1)))
       \<and> (\<forall>t < first_set r (j + 1). \<not> bit r (7 - t))" by simp
      moreover have "first_set r j = first_set r (j + 1)"
        using True miss by (simp add: first_set.simps [of r j])
      ultimately show ?thesis by simp
    qed
  qed
qed

lemma first_set_found:
  assumes "r \<noteq> 0"
  shows "first_set r 0 < 8 \<and> bit r (7 - first_set r 0)
       \<and> (\<forall>t < first_set r 0. \<not> bit r (7 - t))"
proof -
  from first_set_scan [of 0 r]
  have s: "first_set r 0 \<le> 8" "first_set r 0 < 8 \<longrightarrow> bit r (7 - first_set r 0)"
    "\<forall>t < first_set r 0. \<not> bit r (7 - t)" by simp_all
  have "first_set r 0 \<noteq> 8"
  proof
    assume e: "first_set r 0 = 8"
    have "r = 0"
    proof (rule bit_eqI)
      fix m
      show "bit r m = bit (0 :: 8 word) m"
      proof (cases "m < 8")
        case True
        then have "7 - m < 8" "7 - (7 - m) = m" by auto
        with s(3) e have "\<not> bit r (7 - (7 - m))" by metis
        with \<open>7 - (7 - m) = m\<close> show ?thesis by simp
      next
        case False
        then show ?thesis by (auto dest: bit_imp_le_length)
      qed
    qed
    with assms show False by simp
  qed
  with s show ?thesis by simp
qed

lemma abit_split: "k < 8 \<Longrightarrow> abit a (i * 8 + k) = bit (a ! i) (7 - k)"
  by (simp add: abit_def)

lemma agree_prefix_bytes:
  assumes "\<forall>j<i. a ! j = b ! j" "n \<le> i * 8"
  shows "agree a b n"
  unfolding agree_def
proof (intro allI impI)
  fix x assume "x < n"
  with assms(2) have "x div 8 < i" by (simp add: less_mult_imp_div_less)
  with assms(1) show "abit a x = abit b x" by (simp add: abit_def)
qed

lemma find_differ_spec:
  assumes "c \<le> 8 * length a" "c \<le> 8 * length b" "\<forall>j<i. a ! j = b ! j" "d = i * 8"
  shows "\<exists>d'. find_differ a b c i d = Inr d' \<and> agree a b (min d' c)
           \<and> (d' < c \<longrightarrow> abit a d' \<noteq> abit b d')"
  using assms
proof (induction a b c i d rule: find_differ.induct)
  case (1 a b c i d)
  show ?case
  proof (cases "i * 8 < c")
    case False
    then have "find_differ a b c i d = Inr d" by (simp add: find_differ.simps [of a b c i d])
    moreover from False "1.prems" have "min d c = c" "\<not> d < c" by auto
    moreover from False "1.prems" have "agree a b c"
      by (intro agree_prefix_bytes [of i]) auto
    ultimately show ?thesis by simp
  next
    case True
    with "1.prems" have ia: "i < length a" and ib: "i < length b" by auto
    show ?thesis
    proof (cases "(a ! i) XOR (b ! i) = 0")
      case eq: True
      then have e: "a ! i = b ! i" by (simp add: xor_self_eq bit_eq_iff bit_xor_iff)
      then have "\<forall>j<i + 1. a ! j = b ! j" using "1.prems"(3) by (auto simp: less_Suc_eq)
      from "1.IH" [OF True _ refl eq "1.prems"(1,2) this] ia ib
      have "\<exists>d'. find_differ a b c (i + 1) ((i + 1) * 8) = Inr d' \<and> agree a b (min d' c)
           \<and> (d' < c \<longrightarrow> abit a d' \<noteq> abit b d')" by simp
      moreover have "find_differ a b c i d = find_differ a b c (i + 1) ((i + 1) * 8)"
        using True ia ib eq by (simp add: find_differ.simps [of a b c i d])
      ultimately show ?thesis by simp
    next
      case ne: False
      define r where "r = (a ! i) XOR (b ! i)"
      define k where "k = first_set r 0"
      from ne first_set_found [of r]
      have k: "k < 8" "bit r (7 - k)" "\<forall>t<k. \<not> bit r (7 - t)" by (simp_all add: r_def k_def)
      have res: "find_differ a b c i d = Inr (i * 8 + k)"
        using True ia ib ne by (simp add: find_differ.simps [of a b c i d] r_def k_def Let_def)
      have dif: "abit a (i * 8 + k) \<noteq> abit b (i * 8 + k)"
        using k(1,2) by (simp add: abit_split r_def bit_xor_iff)
      have "agree a b (i * 8 + k)"
        unfolding agree_def
      proof (intro allI impI)
        fix x assume x: "x < i * 8 + k"
        show "abit a x = abit b x"
        proof (cases "x div 8 < i")
          case True
          with "1.prems"(3) show ?thesis by (simp add: abit_def)
        next
          case False
          have xe: "x = (x div 8) * 8 + x mod 8" by simp
          from False have "i \<le> x div 8" by simp
          moreover have "x div 8 \<le> i"
          proof (rule ccontr)
            assume "\<not> x div 8 \<le> i"
            then have "i + 1 \<le> x div 8" by simp
            then have "(i + 1) * 8 \<le> (x div 8) * 8" by (rule mult_le_mono1)
            also have "\<dots> \<le> x" by simp
            finally show False using x k(1) by simp
          qed
          ultimately have xi: "x div 8 = i" by simp
          have "x mod 8 < k"
          proof (rule ccontr)
            assume "\<not> x mod 8 < k"
            then have "k \<le> x mod 8" by simp
            then have "i * 8 + k \<le> i * 8 + x mod 8" by simp
            also have "\<dots> = x" using xi xe by metis
            finally show False using x by simp
          qed
          with k(3) have "\<not> bit r (7 - x mod 8)" by simp
          then have "bit (a ! i) (7 - x mod 8) = bit (b ! i) (7 - x mod 8)"
            by (simp add: r_def bit_xor_iff)
          with xi show ?thesis by (simp add: abit_def)
        qed
      qed
      then have "agree a b (min (i * 8 + k) c)" by (simp add: agree_def)
      with res dif show ?thesis by simp
    qed
  qed
qed

lemma differ_bit_of_spec:
  assumes "c \<le> 8 * length a" "c \<le> 8 * length b"
  shows "\<exists>d. differ_bit_of a b c = Inr d \<and> d \<le> c \<and> agree a b d
           \<and> (d < c \<longrightarrow> abit a d \<noteq> abit b d)"
proof -
  from find_differ_spec [OF assms, of 0 0] obtain d' where
    f: "find_differ a b c 0 0 = Inr d'" and a: "agree a b (min d' c)"
    and n: "d' < c \<longrightarrow> abit a d' \<noteq> abit b d'" by auto
  show ?thesis
  proof (cases "d' > c")
    case True
    with f a show ?thesis by (simp add: differ_bit_of_def min_def)
  next
    case False
    with f a n show ?thesis by (auto simp: differ_bit_of_def min_def)
  qed
qed

section \<open>The invariant of a tree\<close>

text \<open>
  A prefix as the binding hands it to the tree: a length within the width of the family
  and as many address bytes as the family has.
\<close>

definition valid_prefix :: "prefix_t \<Rightarrow> bool" where
  "valid_prefix p =
     (bitlen p \<le> RADIX_MAXBITS_BY_PREFIX p \<and> length (add p) = RADIX_MAXBITS_BY_PREFIX p div 8)"

fun pset :: "radix_node_t \<Rightarrow> prefix_t set" where
  "pset NULL = {}"
| "pset (Node b p dt l r) = set_option p \<union> pset l \<union> pset r"

fun node_inv :: "family \<Rightarrow> radix_node_t \<Rightarrow> bool" where
  "node_inv fam NULL = True"
| "node_inv fam (Node b p dt l r) =
     ((case p of
         None \<Rightarrow> l \<noteq> NULL \<and> r \<noteq> NULL
       | Some s \<Rightarrow> family s = fam \<and> bitlen s = b \<and> valid_prefix s)
      \<and> (\<forall>s \<in> pset l. \<not> abit (add s) b)
      \<and> (\<forall>s \<in> pset r. abit (add s) b)
      \<and> (\<forall>s \<in> pset (Node b p dt l r). \<forall>s' \<in> pset (Node b p dt l r). agree (add s) (add s') b)
      \<and> (l \<noteq> NULL \<longrightarrow> b < n_bit l)
      \<and> (r \<noteq> NULL \<longrightarrow> b < n_bit r)
      \<and> node_inv fam l \<and> node_inv fam r)"

fun path_ok :: "radix_node_t \<Rightarrow> node_ptr \<Rightarrow> prefix_t \<Rightarrow> bool" where
  "path_ok n [] s = True"
| "path_ok NULL (d # ds) s = False"
| "path_ok (Node b p dt l r) (d # ds) s =
     (abit (add s) b = d
      \<and> (\<forall>s' \<in> pset (Node b p dt l r). agree (add s') (add s) b)
      \<and> path_ok (if d then r else l) ds s)"

lemma agree_refl: "agree a a n"
  by (simp add: agree_def)

lemma agree_sym: "agree a b n \<Longrightarrow> agree b a n"
  by (simp add: agree_def)

lemma agree_trans: "agree a b n \<Longrightarrow> agree b c n \<Longrightarrow> agree a c n"
  by (simp add: agree_def)

lemma agree_mono: "agree a b n \<Longrightarrow> m \<le> n \<Longrightarrow> agree a b m"
  by (simp add: agree_def)

lemma agree_abit: "agree a b n \<Longrightarrow> i < n \<Longrightarrow> abit a i = abit b i"
  by (simp add: agree_def)

lemma pset_nonempty: "node_inv fam n \<Longrightarrow> n \<noteq> NULL \<Longrightarrow> pset n \<noteq> {}"
  by (induction n) (auto split: option.splits)

lemma inv_family: "node_inv fam n \<Longrightarrow> s \<in> pset n \<Longrightarrow> family s = fam \<and> valid_prefix s"
  by (induction n) (auto split: option.splits)

lemma inv_bit_le: "node_inv fam n \<Longrightarrow> n \<noteq> NULL \<Longrightarrow> s \<in> pset n \<Longrightarrow> n_bit n \<le> bitlen s"
proof (induction n)
  case NULL
  then show ?case by simp
next
  case (Node b p dt l r)
  from Node.prems(3) consider "p = Some s" | "s \<in> pset l" | "s \<in> pset r" by auto
  then show ?case
  proof cases
    case 1
    with Node.prems show ?thesis by simp
  next
    case 2
    then have "l \<noteq> NULL" by auto
    with Node 2 have "b < n_bit l" "n_bit l \<le> bitlen s" by auto
    then show ?thesis by simp
  next
    case 3
    then have "r \<noteq> NULL" by auto
    with Node 3 have "b < n_bit r" "n_bit r \<le> bitlen s" by auto
    then show ?thesis by simp
  qed
qed

lemma inv_agree: "node_inv fam n \<Longrightarrow> n \<noteq> NULL \<Longrightarrow> s \<in> pset n \<Longrightarrow> s' \<in> pset n
  \<Longrightarrow> agree (add s) (add s') (n_bit n)"
  by (cases n) auto

lemma pset_replace_at:
  "pset (replace_at n np new) \<subseteq> pset n \<union> pset new"
  by (induction n np new rule: replace_at.induct) auto

lemma pset_node_at: "pset (node_at n np) \<subseteq> pset n"
  by (induction n np rule: node_at.induct) auto

lemma replace_at_not_NULL: "n \<noteq> NULL \<Longrightarrow> np \<noteq> [] \<Longrightarrow> replace_at n np new \<noteq> NULL"
  by (cases n; cases np) auto

lemma n_bit_replace_at: "n \<noteq> NULL \<Longrightarrow> np \<noteq> [] \<Longrightarrow> n_bit (replace_at n np new) = n_bit n"
  by (cases n; cases np) auto

lemma invI:
  assumes "case p of None \<Rightarrow> l \<noteq> NULL \<and> r \<noteq> NULL
           | Some s \<Rightarrow> family s = fam \<and> bitlen s = b \<and> valid_prefix s"
    "\<forall>s \<in> pset l. \<not> abit (add s) b" "\<forall>s \<in> pset r. abit (add s) b"
    "\<forall>s \<in> pset (Node b p dt l r). \<forall>s' \<in> pset (Node b p dt l r). agree (add s) (add s') b"
    "l \<noteq> NULL \<longrightarrow> b < n_bit l" "r \<noteq> NULL \<longrightarrow> b < n_bit r" "node_inv fam l" "node_inv fam r"
  shows "node_inv fam (Node b p dt l r)"
  using assms by simp

lemma invD:
  assumes "node_inv fam (Node b p dt l r)"
  shows "case p of None \<Rightarrow> l \<noteq> NULL \<and> r \<noteq> NULL
           | Some s \<Rightarrow> family s = fam \<and> bitlen s = b \<and> valid_prefix s"
    "\<forall>s \<in> pset l. \<not> abit (add s) b" "\<forall>s \<in> pset r. abit (add s) b"
    "\<forall>s \<in> pset (Node b p dt l r). \<forall>s' \<in> pset (Node b p dt l r). agree (add s) (add s') b"
    "l \<noteq> NULL \<longrightarrow> b < n_bit l" "r \<noteq> NULL \<longrightarrow> b < n_bit r" "node_inv fam l" "node_inv fam r"
  using assms by simp_all

lemma inv_replace_at:
  assumes "node_inv fam head" "node_at head np \<noteq> NULL"
    "new = NULL \<longrightarrow> np = [] \<or> n_prefix (node_at head (butlast np)) \<noteq> None"
    "new \<noteq> NULL \<longrightarrow> node_inv fam new \<and> (np \<noteq> [] \<longrightarrow> n_bit (node_at head (butlast np)) < n_bit new)"
    "\<forall>s \<in> pset new. path_ok head np s"
  shows "node_inv fam (replace_at head np new)"
  using assms
proof (induction np arbitrary: head)
  case Nil
  then show ?case by (cases "new = NULL") auto
next
  case (Cons d ds)
  from Cons.prems(2) obtain b p dt l r where head: "head = Node b p dt l r"
    by (cases head) auto
  define c where "c = (if d then r else l)"
  define c' where "c' = replace_at c ds new"
  have cn: "node_at c ds \<noteq> NULL" using Cons.prems(2) head by (simp add: c_def)
  then have cnn: "c \<noteq> NULL" by (auto simp: node_at_NULL)
  have invc: "node_inv fam c" using Cons.prems(1) head by (simp add: c_def)
  have bl: "butlast (d # ds) = (if ds = [] then [] else d # butlast ds)" by simp
  have p3: "new = NULL \<longrightarrow> ds = [] \<or> n_prefix (node_at c (butlast ds)) \<noteq> None"
    using Cons.prems(3) head by (auto simp: c_def split: if_splits)
  have p4: "new \<noteq> NULL \<longrightarrow> node_inv fam new \<and> (ds \<noteq> [] \<longrightarrow> n_bit (node_at c (butlast ds)) < n_bit new)"
    using Cons.prems(4) head by (auto simp: c_def split: if_splits)
  have p5: "\<forall>s \<in> pset new. path_ok c ds s"
    using Cons.prems(5) head by (auto simp: c_def)
  from Cons.IH [OF invc cn p3 p4 p5] have invc': "node_inv fam c'" by (simp add: c'_def)
  have sub: "pset c' \<subseteq> pset c \<union> pset new" by (simp add: c'_def pset_replace_at)
  have newprop: "\<forall>s \<in> pset new. abit (add s) b = d \<and> (\<forall>s' \<in> pset head. agree (add s') (add s) b)"
    using Cons.prems(5) head by auto
  have c'nn: "p = None \<longrightarrow> c' \<noteq> NULL"
  proof
    assume pn: "p = None"
    show "c' \<noteq> NULL"
    proof (cases "ds = []")
      case True
      with Cons.prems(3) head pn have "new \<noteq> NULL" by auto
      with True show ?thesis by (simp add: c'_def)
    next
      case False
      with cnn show ?thesis by (simp add: c'_def replace_at_not_NULL)
    qed
  qed
  have c'bit: "c' \<noteq> NULL \<longrightarrow> b < n_bit c'"
  proof
    assume "c' \<noteq> NULL"
    show "b < n_bit c'"
    proof (cases "ds = []")
      case True
      with \<open>c' \<noteq> NULL\<close> have "new \<noteq> NULL" "c' = new" by (auto simp: c'_def)
      with Cons.prems(4) True head show ?thesis by simp
    next
      case False
      with cnn have "n_bit c' = n_bit c" by (simp add: c'_def n_bit_replace_at)
      with Cons.prems(1) head cnn show ?thesis by (auto simp: c_def split: if_splits)
    qed
  qed
  have hne: "pset head \<noteq> {}" using Cons.prems(1) head pset_nonempty by blast
  have c'side: "\<forall>s \<in> pset c'. abit (add s) b = d"
  proof
    fix s assume "s \<in> pset c'"
    with sub have "s \<in> pset c \<or> s \<in> pset new" by auto
    then show "abit (add s) b = d"
    proof
      assume "s \<in> pset c"
      with Cons.prems(1) head show ?thesis by (auto simp: c_def split: if_splits)
    next
      assume "s \<in> pset new"
      with newprop show ?thesis by simp
    qed
  qed
  have oldagree: "\<forall>s \<in> pset head. \<forall>s' \<in> pset head. agree (add s) (add s') b"
    using Cons.prems(1) head by simp
  have allagree: "\<forall>s \<in> pset head \<union> pset new. \<forall>s' \<in> pset head \<union> pset new. agree (add s) (add s') b"
  proof (intro ballI)
    fix s s' assume s: "s \<in> pset head \<union> pset new" and s': "s' \<in> pset head \<union> pset new"
    from hne obtain w where w: "w \<in> pset head" by auto
    have "agree (add s) (add w) b"
      using s w oldagree newprop by (auto intro: agree_sym)
    moreover have "agree (add w) (add s') b"
      using s' w oldagree newprop by auto
    ultimately show "agree (add s) (add s') b" by (rule agree_trans)
  qed
  have res: "replace_at head (d # ds) new = (if d then Node b p dt l c' else Node b p dt c' r)"
    by (simp add: head c'_def c_def)
  have subh: "pset (if d then Node b p dt l c' else Node b p dt c' r) \<subseteq> pset head \<union> pset new"
    using sub by (auto simp: head c_def split: if_splits)
  note old = invD [OF Cons.prems(1) [unfolded head]]
  show ?case
  proof (cases d)
    case True
    then have cr: "c = r" by (simp add: c_def)
    have "node_inv fam (Node b p dt l c')"
    proof (rule invI)
      show "case p of None \<Rightarrow> l \<noteq> NULL \<and> c' \<noteq> NULL
           | Some s \<Rightarrow> family s = fam \<and> bitlen s = b \<and> valid_prefix s"
        using old(1) c'nn by (cases p) auto
      show "\<forall>s \<in> pset l. \<not> abit (add s) b" by (rule old(2))
      show "\<forall>s \<in> pset c'. abit (add s) b" using c'side True by simp
      show "\<forall>s \<in> pset (Node b p dt l c'). \<forall>s' \<in> pset (Node b p dt l c'). agree (add s) (add s') b"
        using allagree subh True by (simp add: subset_iff) blast
      show "l \<noteq> NULL \<longrightarrow> b < n_bit l" by (rule old(5))
      show "c' \<noteq> NULL \<longrightarrow> b < n_bit c'" by (rule c'bit)
      show "node_inv fam l" by (rule old(7))
      show "node_inv fam c'" by (rule invc')
    qed
    with True res show ?thesis by simp
  next
    case False
    then have cl: "c = l" by (simp add: c_def)
    have "node_inv fam (Node b p dt c' r)"
    proof (rule invI)
      show "case p of None \<Rightarrow> c' \<noteq> NULL \<and> r \<noteq> NULL
           | Some s \<Rightarrow> family s = fam \<and> bitlen s = b \<and> valid_prefix s"
        using old(1) c'nn by (cases p) auto
      show "\<forall>s \<in> pset r. abit (add s) b" by (rule old(3))
      show "\<forall>s \<in> pset c'. \<not> abit (add s) b" using c'side False by simp
      show "\<forall>s \<in> pset (Node b p dt c' r). \<forall>s' \<in> pset (Node b p dt c' r). agree (add s) (add s') b"
        using allagree subh False by (simp add: subset_iff) blast
      show "r \<noteq> NULL \<longrightarrow> b < n_bit r" by (rule old(6))
      show "c' \<noteq> NULL \<longrightarrow> b < n_bit c'" by (rule c'bit)
      show "node_inv fam r" by (rule old(8))
      show "node_inv fam c'" by (rule invc')
    qed
    with False res show ?thesis by simp
  qed
qed

section \<open>The descent and the walk up of \<^verbatim>\<open>radix_lookup\<close>\<close>

lemma inv_node_at: "node_inv fam n \<Longrightarrow> node_inv fam (node_at n np)"
  by (induction n np rule: node_at.induct) auto

lemma node_at_snoc_bit:
  assumes "node_inv fam n" "node_at n (np @ [dir]) \<noteq> NULL"
  shows "n_bit (node_at n np) < n_bit (node_at n (np @ [dir]))"
proof -
  from assms(2) have nn: "node_at n np \<noteq> NULL" by (auto simp: node_at_append node_at_NULL)
  then obtain b q dt l r where e: "node_at n np = Node b q dt l r" by (cases "node_at n np") auto
  from inv_node_at [OF assms(1), of np] e have "node_inv fam (Node b q dt l r)" by simp
  with assms(2) e show ?thesis by (cases dir) (auto simp: node_at_append)
qed

lemma node_at_bit_mono:
  assumes "node_inv fam n" "node_at n (np @ rest) \<noteq> NULL"
  shows "n_bit (node_at n np) \<le> n_bit (node_at n (np @ rest))"
  using assms(2)
proof (induction rest rule: rev_induct)
  case Nil
  then show ?case by simp
next
  case (snoc x xs)
  from snoc.prems have nn: "node_at n (np @ xs) \<noteq> NULL"
    by (auto simp: node_at_append node_at_NULL)
  from node_at_snoc_bit [OF assms(1), of "np @ xs" x] snoc.prems
  have "n_bit (node_at n (np @ xs)) < n_bit (node_at n (np @ xs @ [x]))" by simp
  with snoc.IH [OF nn] show ?case by simp
qed

fun bits_below :: "radix_node_t \<Rightarrow> node_ptr \<Rightarrow> nat \<Rightarrow> bool" where
  "bits_below n [] d = True"
| "bits_below NULL (dir # ds) d = False"
| "bits_below (Node b q dt l r) (dir # ds) d = (b < d \<and> bits_below (if dir then r else l) ds d)"

lemma bits_below_parent:
  assumes "node_inv fam n" "node_at n np \<noteq> NULL" "np \<noteq> []"
    "n_bit (node_at n (butlast np)) < d"
  shows "bits_below n np d"
  using assms
proof (induction np arbitrary: n)
  case Nil
  then show ?case by simp
next
  case (Cons dir ds)
  from Cons.prems(2) obtain b q dt l r where n: "n = Node b q dt l r" by (cases n) auto
  define c where "c = (if dir then r else l)"
  have cn: "node_at c ds \<noteq> NULL" using Cons.prems(2) n by (simp add: c_def)
  have ic: "node_inv fam c" using Cons.prems(1) n by (simp add: c_def)
  show ?case
  proof (cases "ds = []")
    case True
    with Cons.prems(4) n show ?thesis by simp
  next
    case False
    then have bl: "butlast (dir # ds) = dir # butlast ds" by simp
    from Cons.prems(4) n False have pb: "n_bit (node_at c (butlast ds)) < d" by (simp add: c_def)
    from Cons.IH [OF ic cn False pb] have bb: "bits_below c ds d" .
    have "node_at n (dir # butlast ds) \<noteq> NULL"
    proof
      assume "node_at n (dir # butlast ds) = NULL"
      then have "node_at n ((dir # butlast ds) @ [last ds]) = NULL"
        by (simp only: node_at_append node_at_NULL)
      with False Cons.prems(2) show False by simp
    qed
    from node_at_bit_mono [OF Cons.prems(1), of "[]" "dir # butlast ds"] this
    have "n_bit n \<le> n_bit (node_at n (dir # butlast ds))" by simp
    with Cons.prems(4) n False have "b < d" by simp
    with bb n show ?thesis by (simp add: c_def)
  qed
qed

lemma walk_up_step:
  "np \<noteq> [] \<Longrightarrow> d \<le> n_bit (node_at head (butlast np))
   \<Longrightarrow> walk_up head np d = walk_up head (butlast np) d"
  by (subst walk_up.simps) simp

lemma walk_up_stop:
  "\<not> (np \<noteq> [] \<and> d \<le> n_bit (node_at head (butlast np))) \<Longrightarrow> walk_up head np d = np"
  by (subst walk_up.simps) auto

lemma walk_up_prefix: "\<exists>rest. stop = walk_up head stop d @ rest"
proof (induction head stop d rule: walk_up.induct)
  case (1 head np d)
  show ?case
  proof (cases "np \<noteq> [] \<and> n_bit (node_at head (butlast np)) \<ge> d")
    case True
    with 1 obtain rest where "butlast np = walk_up head (butlast np) d @ rest" by blast
    moreover from True have "walk_up head np d = walk_up head (butlast np) d"
      by (simp add: walk_up_step)
    moreover from True have "np = butlast np @ [last np]" by simp
    ultimately have "np = walk_up head np d @ (rest @ [last np])" by (metis append.assoc)
    then show ?thesis by blast
  next
    case False
    then have "walk_up head np d = np" by (rule walk_up_stop)
    then show ?thesis by simp
  qed
qed

lemma walk_up_parent:
  "walk_up head stop d \<noteq> [] \<Longrightarrow> n_bit (node_at head (butlast (walk_up head stop d))) < d"
proof (induction head stop d rule: walk_up.induct)
  case (1 head np d)
  show ?case
  proof (cases "np \<noteq> [] \<and> n_bit (node_at head (butlast np)) \<ge> d")
    case True
    then have e: "walk_up head np d = walk_up head (butlast np) d"
      by (simp add: walk_up_step)
    with 1 True show ?thesis by simp
  next
    case False
    then have e: "walk_up head np d = np" by (rule walk_up_stop)
    with False "1.prems" show ?thesis by auto
  qed
qed

lemma walk_up_bit:
  "d \<le> n_bit (node_at head stop) \<Longrightarrow> d \<le> n_bit (node_at head (walk_up head stop d))"
proof (induction head stop d rule: walk_up.induct)
  case (1 head np d)
  show ?case
  proof (cases "np \<noteq> [] \<and> n_bit (node_at head (butlast np)) \<ge> d")
    case True
    then have e: "walk_up head np d = walk_up head (butlast np) d"
      by (simp add: walk_up_step)
    with 1 True show ?thesis by simp
  next
    case False
    then have e: "walk_up head np d = np" by (rule walk_up_stop)
    with "1.prems" show ?thesis by simp
  qed
qed

lemma walk_up_stay:
  "stop = [] \<or> n_bit (node_at head (butlast stop)) < d \<Longrightarrow> walk_up head stop d = stop"
  by (rule walk_up_stop) auto

fun descended :: "radix_node_t \<Rightarrow> 8 word list \<Rightarrow> nat \<Rightarrow> nat \<Rightarrow> node_ptr \<Rightarrow> bool" where
  "descended NULL a blen m np = False"
| "descended (Node b q dt l r) a blen m [] =
     (q \<noteq> None \<and> (blen \<le> b \<or> (if b < m \<and> abit a b then r else l) = NULL))"
| "descended (Node b q dt l r) a blen m (dir # ds) =
     ((b < blen \<or> q = None) \<and> dir = (b < m \<and> abit a b)
      \<and> descended (if dir then r else l) a blen m ds)"

lemma lookup_descend_descended:
  assumes "node_inv fam n" "n \<noteq> NULL" "length a * 8 = m"
  shows "\<exists>stop. lookup_descend n a blen m = Inr stop \<and> descended n a blen m stop"
  using assms
proof (induction n)
  case NULL
  then show ?case by simp
next
  case (Node b q dt l r)
  note iv = invD [OF Node.prems(1)]
  have test: "b < m \<Longrightarrow> BIT_TEST_SEARCH_BIT a b = Some (abit a b)"
    using Node.prems(3) by (intro BIT_TEST_SEARCH_BIT_abit) auto
  show ?case
  proof (cases "b < blen \<or> q = None")
    case False
    then show ?thesis by auto
  next
    case True
    define dir where "dir = (b < m \<and> abit a b)"
    have t: "(if b < m then BIT_TEST_SEARCH_BIT a b else Some False) = Some dir"
      using test by (auto simp: dir_def)
    show ?thesis
    proof (cases dir)
      case dT: True
      show ?thesis
      proof (cases "r = NULL")
        case rn: True
        with iv(1) have "q \<noteq> None" by (cases q) auto
        with True t dT rn show ?thesis by (auto simp: dir_def)
      next
        case rn: False
        from Node.IH(2) [OF iv(8) rn Node.prems(3)] obtain stop where
          "lookup_descend r a blen m = Inr stop" "descended r a blen m stop" by blast
        with True t dT rn show ?thesis by (auto simp: dir_def)
      qed
    next
      case dF: False
      show ?thesis
      proof (cases "l = NULL")
        case ln: True
        with iv(1) have "q \<noteq> None" by (cases q) auto
        with True t dF ln show ?thesis by (auto simp: dir_def)
      next
        case ln: False
        from Node.IH(1) [OF iv(7) ln Node.prems(3)] obtain stop where
          "lookup_descend l a blen m = Inr stop" "descended l a blen m stop" by blast
        with True t dF ln show ?thesis by (auto simp: dir_def)
      qed
    qed
  qed
qed

lemma descended_append:
  "descended n a blen m (np @ rest) \<Longrightarrow> descended (node_at n np) a blen m rest"
  by (induction n np rule: node_at.induct) auto

lemma descended_not_NULL: "descended n a blen m np \<Longrightarrow> node_at n np \<noteq> NULL"
  by (induction n a blen m np rule: descended.induct) auto

lemma descended_real: "descended n a blen m np \<Longrightarrow> n_prefix (node_at n np) \<noteq> None"
  by (induction n a blen m np rule: descended.induct) auto

lemma path_ok_stored:
  "node_inv fam n \<Longrightarrow> s \<in> pset (node_at n np) \<Longrightarrow> path_ok n np s"
proof (induction n np arbitrary: s rule: node_at.induct)
  case (1 n)
  then show ?case by simp
next
  case (2 d ds)
  then show ?case by simp
next
  case (3 b p dt lt rt d ds)
  let ?n = "Node b p dt lt rt"
  let ?c = "if d then rt else lt"
  from 3 have sc: "s \<in> pset (node_at ?c ds)" by simp
  then have sin: "s \<in> pset ?c" using pset_node_at by blast
  note iv = invD [OF "3.prems"(1)]
  have "abit (add s) b = d" using sin iv(2,3) by (auto split: if_splits)
  moreover have "\<forall>s' \<in> pset ?n. agree (add s') (add s) b"
    using iv(4) sin by (auto split: if_splits)
  moreover have "path_ok ?c ds s" using "3.IH" [OF _ sc] iv(7,8) by (auto split: if_splits)
  ultimately show ?case by simp
qed

lemma path_ok_descended:
  assumes "node_inv fam n" "descended n (add p) blen m (np @ rest)" "bits_below n np d"
    "d \<le> blen" "blen \<le> m" "tp \<in> pset (node_at n (np @ rest))" "agree (add p) (add tp) d"
  shows "path_ok n np p"
  using assms(1,2,3,6)
proof (induction np arbitrary: n)
  case Nil
  then show ?case by simp
next
  case (Cons dir ds)
  from Cons.prems(2) obtain b q dt l r where n: "n = Node b q dt l r" by (cases n) auto
  define c where "c = (if dir then r else l)"
  note iv = invD [OF Cons.prems(1) [unfolded n]]
  from Cons.prems(3) n have bd: "b < d" and bb: "bits_below c ds d" by (auto simp: c_def)
  from Cons.prems(2) n have dir: "dir = (b < m \<and> abit (add p) b)"
    and dc: "descended c (add p) blen m (ds @ rest)" by (auto simp: c_def)
  from bd assms(4,5) dir have dir': "abit (add p) b = dir" by simp
  from Cons.prems(4) n have tc: "tp \<in> pset (node_at c (ds @ rest))" by (simp add: c_def)
  then have "tp \<in> pset c" using pset_node_at by blast
  then have tn: "tp \<in> pset n" by (auto simp: n c_def split: if_splits)
  have ic: "node_inv fam c" using iv(7,8) by (simp add: c_def)
  have ag: "\<forall>s' \<in> pset n. agree (add s') (add p) b"
  proof
    fix s' assume "s' \<in> pset n"
    with tn iv(4) n have "agree (add s') (add tp) b" by blast
    moreover from bd have "agree (add p) (add tp) b"
      by (intro agree_mono [OF assms(7)]) simp
    then have "agree (add tp) (add p) b" by (rule agree_sym)
    ultimately show "agree (add s') (add p) b" by (rule agree_trans)
  qed
  from Cons.IH [OF ic dc bb tc] dir' ag n show ?case by (simp add: c_def)
qed

lemma nodes_replace_at:
  "node_at n np \<noteq> NULL \<Longrightarrow>
   nodes (replace_at n np new) + nodes (node_at n np) = nodes n + nodes new"
  by (induction n np new rule: replace_at.induct) auto

lemma node_at_replace_at:
  "node_at n np \<noteq> NULL \<Longrightarrow> node_at (replace_at n np new) np = new"
  by (induction n np new rule: replace_at.induct) auto

section \<open>The nodes \<^verbatim>\<open>radix_lookup\<close> builds\<close>

lemma pset_new_leaf: "pset (new_leaf p) = {p}"
  by (simp add: new_leaf_def)

lemma inv_new_leaf: "valid_prefix p \<Longrightarrow> family p = fam \<Longrightarrow> node_inv fam (new_leaf p)"
  by (simp add: new_leaf_def agree_refl)

lemma inv_materialize:
  assumes "node_inv fam (Node b None dt l r)" "family p = fam" "bitlen p = b" "valid_prefix p"
    "\<forall>s \<in> pset l \<union> pset r. agree (add s) (add p) b"
  shows "node_inv fam (Node b (Some p) dt l r)"
proof (rule invI)
  note iv = invD [OF assms(1)]
  show "case Some p of None \<Rightarrow> l \<noteq> NULL \<and> r \<noteq> NULL
        | Some s \<Rightarrow> family s = fam \<and> bitlen s = b \<and> valid_prefix s"
    using assms by simp
  show "\<forall>s\<in>pset l. \<not> abit (add s) b" "\<forall>s\<in>pset r. abit (add s) b"
    "l \<noteq> NULL \<longrightarrow> b < n_bit l" "r \<noteq> NULL \<longrightarrow> b < n_bit r" "node_inv fam l" "node_inv fam r"
    using iv by simp_all
  show "\<forall>s\<in>pset (Node b (Some p) dt l r). \<forall>s'\<in>pset (Node b (Some p) dt l r).
          agree (add s) (add s') b"
  proof (intro ballI)
    fix s s' assume "s \<in> pset (Node b (Some p) dt l r)" "s' \<in> pset (Node b (Some p) dt l r)"
    then have "agree (add s) (add p) b" "agree (add s') (add p) b"
      using assms(5) by (auto simp: agree_refl)
    then show "agree (add s) (add s') b" by (blast intro: agree_trans agree_sym)
  qed
qed

lemma inv_add_child:
  assumes "node_inv fam (Node b q dt l r)" "family p = fam" "valid_prefix p" "b < bitlen p"
    "\<forall>s \<in> pset (Node b q dt l r). agree (add s) (add p) b"
    "(if abit (add p) b then r else l) = NULL" "q \<noteq> None"
  shows "node_inv fam (if abit (add p) b then Node b q dt l (new_leaf p) else Node b q dt (new_leaf p) r)"
proof -
  note iv = invD [OF assms(1)]
  have pa: "\<forall>s \<in> insert p (pset (Node b q dt l r)). \<forall>s' \<in> insert p (pset (Node b q dt l r)).
      agree (add s) (add s') b"
  proof (intro ballI)
    fix s s' assume "s \<in> insert p (pset (Node b q dt l r))" "s' \<in> insert p (pset (Node b q dt l r))"
    then have "agree (add s) (add p) b" "agree (add s') (add p) b"
      using assms(5) by (auto simp: agree_refl)
    then show "agree (add s) (add s') b" by (blast intro: agree_trans agree_sym)
  qed
  have lf: "node_inv fam (new_leaf p)" using assms by (simp add: inv_new_leaf)
  have nb: "n_bit (new_leaf p) = bitlen p" "new_leaf p \<noteq> NULL" by (simp_all add: new_leaf_def)
  show ?thesis
  proof (cases "abit (add p) b")
    case True
    with assms(6) have r: "r = NULL" by simp
    have "node_inv fam (Node b q dt l (new_leaf p))"
    proof (rule invI)
      show "case q of None \<Rightarrow> l \<noteq> NULL \<and> new_leaf p \<noteq> NULL
        | Some s \<Rightarrow> family s = fam \<and> bitlen s = b \<and> valid_prefix s"
        using iv(1) assms(7) by (cases q) auto
      show "\<forall>s\<in>pset l. \<not> abit (add s) b" by (rule iv(2))
      show "\<forall>s\<in>pset (new_leaf p). abit (add s) b" using True by (simp add: pset_new_leaf)
      have "pset (Node b q dt l (new_leaf p)) \<subseteq> insert p (pset (Node b q dt l r))"
        by (auto simp: pset_new_leaf)
      with pa show "\<forall>s\<in>pset (Node b q dt l (new_leaf p)). \<forall>s'\<in>pset (Node b q dt l (new_leaf p)).
          agree (add s) (add s') b"
        by blast
      show "l \<noteq> NULL \<longrightarrow> b < n_bit l" by (rule iv(5))
      show "new_leaf p \<noteq> NULL \<longrightarrow> b < n_bit (new_leaf p)" using nb assms(4) by simp
      show "node_inv fam l" by (rule iv(7))
      show "node_inv fam (new_leaf p)" by (rule lf)
    qed
    with True show ?thesis by simp
  next
    case False
    with assms(6) have l: "l = NULL" by simp
    have "node_inv fam (Node b q dt (new_leaf p) r)"
    proof (rule invI)
      show "case q of None \<Rightarrow> new_leaf p \<noteq> NULL \<and> r \<noteq> NULL
        | Some s \<Rightarrow> family s = fam \<and> bitlen s = b \<and> valid_prefix s"
        using iv(1) assms(7) by (cases q) auto
      show "\<forall>s\<in>pset r. abit (add s) b" by (rule iv(3))
      show "\<forall>s\<in>pset (new_leaf p). \<not> abit (add s) b" using False by (simp add: pset_new_leaf)
      have "pset (Node b q dt (new_leaf p) r) \<subseteq> insert p (pset (Node b q dt l r))"
        by (auto simp: pset_new_leaf)
      with pa show "\<forall>s\<in>pset (Node b q dt (new_leaf p) r). \<forall>s'\<in>pset (Node b q dt (new_leaf p) r).
          agree (add s) (add s') b"
        by blast
      show "r \<noteq> NULL \<longrightarrow> b < n_bit r" by (rule iv(6))
      show "new_leaf p \<noteq> NULL \<longrightarrow> b < n_bit (new_leaf p)" using nb assms(4) by simp
      show "node_inv fam r" by (rule iv(8))
      show "node_inv fam (new_leaf p)" by (rule lf)
    qed
    with False show ?thesis by simp
  qed
qed

lemma inv_above:
  assumes "node_inv fam node" "node \<noteq> NULL" "bitlen p < n_bit node" "family p = fam" "valid_prefix p"
    "\<forall>s \<in> pset node. agree (add s) (add p) (bitlen p)"
    "\<forall>s \<in> pset node. abit (add s) (bitlen p) = dir"
  shows "node_inv fam (if dir then Node (bitlen p) (Some p) None NULL node
                 else Node (bitlen p) (Some p) None node NULL)"
proof -
  have pa: "\<forall>s \<in> insert p (pset node). \<forall>s' \<in> insert p (pset node).
      agree (add s) (add s') (bitlen p)"
  proof (intro ballI)
    fix s s' assume "s \<in> insert p (pset node)" "s' \<in> insert p (pset node)"
    then have "agree (add s) (add p) (bitlen p)" "agree (add s') (add p) (bitlen p)"
      using assms(6) by (auto simp: agree_refl)
    then show "agree (add s) (add s') (bitlen p)" by (blast intro: agree_trans agree_sym)
  qed
  show ?thesis
  proof (cases dir)
    case True
    have "node_inv fam (Node (bitlen p) (Some p) None NULL node)"
      by (rule invI) (use assms pa True in auto)
    with True show ?thesis by simp
  next
    case False
    have "node_inv fam (Node (bitlen p) (Some p) None node NULL)"
      by (rule invI) (use assms pa False in auto)
    with False show ?thesis by simp
  qed
qed

lemma inv_fork:
  assumes "node_inv fam node" "node \<noteq> NULL" "d < n_bit node" "d < bitlen p" "family p = fam"
    "valid_prefix p"
    "\<forall>s \<in> pset node. agree (add s) (add p) d"
    "\<forall>s \<in> pset node. abit (add s) d \<noteq> abit (add p) d"
  shows "node_inv fam (if abit (add p) d then Node d None None node (new_leaf p)
                 else Node d None None (new_leaf p) node)"
proof -
  have pa: "\<forall>s \<in> insert p (pset node). \<forall>s' \<in> insert p (pset node). agree (add s) (add s') d"
  proof (intro ballI)
    fix s s' assume "s \<in> insert p (pset node)" "s' \<in> insert p (pset node)"
    then have "agree (add s) (add p) d" "agree (add s') (add p) d"
      using assms(7) by (auto simp: agree_refl)
    then show "agree (add s) (add s') d" by (blast intro: agree_trans agree_sym)
  qed
  have lf: "node_inv fam (new_leaf p)" using assms by (simp add: inv_new_leaf)
  have nb: "n_bit (new_leaf p) = bitlen p" "new_leaf p \<noteq> NULL" by (simp_all add: new_leaf_def)
  show ?thesis
  proof (cases "abit (add p) d")
    case True
    have "node_inv fam (Node d None None node (new_leaf p))"
      by (rule invI) (use assms pa True lf nb in \<open>auto simp: pset_new_leaf\<close>)
    with True show ?thesis by simp
  next
    case False
    have "node_inv fam (Node d None None (new_leaf p) node)"
      by (rule invI) (use assms pa False lf nb in \<open>auto simp: pset_new_leaf\<close>)
    with False show ?thesis by simp
  qed
qed


lemma attach_exact_glue:
  assumes "node_at (RADIX_HEAD_BY_PREFIX radix p) np = Node nb None ndt nl nr"
    "d = bitlen p" "nb = bitlen p"
  shows "lookup_attach avail radix p ta d np =
    Inr (set_head radix p (replace_at (RADIX_HEAD_BY_PREFIX radix p) np
           (Node nb (Some p) ndt nl nr)), Some np)"
  using assms by (simp add: lookup_attach_def Let_def)

lemma attach_exact_real:
  assumes "node_at (RADIX_HEAD_BY_PREFIX radix p) np = Node nb (Some s) ndt nl nr"
    "d = bitlen p" "nb = bitlen p"
  shows "lookup_attach avail radix p ta d np = Inr (radix, Some np)"
  using assms by (simp add: lookup_attach_def Let_def)

lemma attach_no_memory:
  assumes "node_at (RADIX_HEAD_BY_PREFIX radix p) np = Node nb nq ndt nl nr"
    "\<not> (d = bitlen p \<and> nb = bitlen p)"
  shows "lookup_attach 0 radix p ta d np = Inr (radix, None)"
  using assms by (simp add: lookup_attach_def Let_def)

lemma attach_below:
  assumes "node_at (RADIX_HEAD_BY_PREFIX radix p) np = Node nb nq ndt nl nr"
    "\<not> (d = bitlen p \<and> nb = bitlen p)" "avail \<noteq> 0" "nb = d"
    "nb < RADIX_MAXBITS_BY_PREFIX p" "BIT_TEST_SEARCH_BIT (add p) nb = Some dir"
  shows "lookup_attach avail radix p ta d np =
    Inr ((set_head radix p (replace_at (RADIX_HEAD_BY_PREFIX radix p) np
            (if dir then Node nb nq ndt nl (new_leaf p) else Node nb nq ndt (new_leaf p) nr)))
          \<lparr>num_active_node := num_active_node radix + 1\<rparr>, Some (np @ [dir]))"
using assms by (auto simp: lookup_attach_def Let_def)

lemma attach_above:
  assumes "node_at (RADIX_HEAD_BY_PREFIX radix p) np = node" "node \<noteq> NULL"
    "n_bit node \<noteq> d" "avail \<noteq> 0" "bitlen p = d"
    "bitlen p < RADIX_MAXBITS_BY_PREFIX p" "BIT_TEST_SEARCH_BIT ta (bitlen p) = Some dir"
  shows "lookup_attach avail radix p ta d np =
    Inr ((set_head radix p (replace_at (RADIX_HEAD_BY_PREFIX radix p) np
            (if dir then Node (bitlen p) (Some p) None NULL node
             else Node (bitlen p) (Some p) None node NULL)))
          \<lparr>num_active_node := num_active_node radix + 1\<rparr>, Some np)"
using assms by (auto simp: lookup_attach_def Let_def)

lemma attach_glue_no_memory:
  assumes "node_at (RADIX_HEAD_BY_PREFIX radix p) np = node"
    "n_bit node \<noteq> d" "bitlen p \<noteq> d"
  shows "lookup_attach 1 radix p ta d np =
    Inr (radix\<lparr>num_active_node := num_active_node radix + 1\<rparr>, None)"
  using assms by (auto simp: lookup_attach_def Let_def)

lemma attach_fork:
  assumes "node_at (RADIX_HEAD_BY_PREFIX radix p) np = node"
    "n_bit node \<noteq> d" "bitlen p \<noteq> d" "avail \<noteq> 0" "avail \<noteq> 1"
    "d < RADIX_MAXBITS_BY_PREFIX p" "BIT_TEST_SEARCH_BIT (add p) d = Some dir"
  shows "lookup_attach avail radix p ta d np =
    Inr ((set_head radix p (replace_at (RADIX_HEAD_BY_PREFIX radix p) np
            (if dir then Node d None None node (new_leaf p)
             else Node d None None (new_leaf p) node)))
          \<lparr>num_active_node := num_active_node radix + 2\<rparr>, Some (np @ [dir]))"
using assms by (auto simp: lookup_attach_def Let_def)

lemma nodes_replace_at_int:
  assumes "node_at n np \<noteq> NULL"
  shows "int (nodes (replace_at n np new)) = int (nodes n) + int (nodes new) - int (nodes (node_at n np))"
  using nodes_replace_at [OF assms, of new] by linarith


lemma maxbits_cases: "RADIX_MAXBITS_BY_PREFIX p = 32 \<or> RADIX_MAXBITS_BY_PREFIX p = 128"
  by (simp add: RADIX_MAXBITS_BY_PREFIX_def)

lemma valid_prefix_len: "valid_prefix p \<Longrightarrow> length (add p) * 8 = RADIX_MAXBITS_BY_PREFIX p"
  using maxbits_cases [of p] by (auto simp: valid_prefix_def)

lemma same_family_maxbits:
  "family s = family p \<Longrightarrow> RADIX_MAXBITS_BY_PREFIX s = RADIX_MAXBITS_BY_PREFIX p"
  by (simp add: RADIX_MAXBITS_BY_PREFIX_def)

lemma set_head_same: "set_head radix p (RADIX_HEAD_BY_PREFIX radix p) = radix"
  by (simp add: set_head_def RADIX_HEAD_BY_PREFIX_def)

lemma test_in_range:
  "length a * 8 = m \<Longrightarrow> b < m \<Longrightarrow> BIT_TEST_SEARCH_BIT a b = Some (abit a b)"
  by (intro BIT_TEST_SEARCH_BIT_abit) auto

lemma lookup_attach_ok:
  assumes hd: "RADIX_HEAD_BY_PREFIX radix p = head" and md: "RADIX_MAXBITS_BY_PREFIX p = m"
    and iv: "node_inv (family p) head" and vp: "valid_prefix p"
    and ds: "descended head (add p) (bitlen p) m stop"
    and tp: "n_prefix (node_at head stop) = Some tp"
    and dle: "d \<le> bitlen p" "d \<le> n_bit (node_at head stop)"
    and dag: "agree (add p) (add tp) d"
    and ddf: "d < bitlen p \<and> d < n_bit (node_at head stop) \<longrightarrow> abit (add p) d \<noteq> abit (add tp) d"
  shows "\<exists>head' k r. lookup_attach avail radix p (add tp) d (walk_up head stop d)
        = Inr ((set_head radix p head')\<lparr>num_active_node := num_active_node radix + k\<rparr>, r)
     \<and> node_inv (family p) head'
     \<and> (r = None \<longrightarrow> head' = head)
     \<and> (2 \<le> avail \<longrightarrow> r \<noteq> None)
     \<and> (\<forall>q. r = Some q \<longrightarrow> int (nodes head') = int (nodes head) + k
            \<and> node_at head' q \<noteq> NULL
            \<and> (\<exists>s. n_prefix (node_at head' q) = Some s \<and> bitlen s = bitlen p
                   \<and> n_bit (node_at head' q) = bitlen p
                   \<and> agree (add s) (add p) (bitlen p)))"
proof -
  define np where "np = walk_up head stop d"
  define node where "node = node_at head np"
  define S where "S = node_at head stop"
  obtain rest where rest: "stop = np @ rest" using walk_up_prefix np_def by blast
  have Snn: "S \<noteq> NULL" using descended_not_NULL [OF ds] by (simp add: S_def)
  have nnn: "node \<noteq> NULL"
    using Snn by (auto simp: S_def node_def rest node_at_append node_at_NULL)
  have SfromN: "S = node_at node rest" by (simp add: S_def node_def rest node_at_append)
  have tpS: "tp \<in> pset S" using tp Snn by (cases S) (auto simp: S_def)
  have tpN: "tp \<in> pset node" using tpS pset_node_at SfromN by blast
  have ivN: "node_inv (family p) node" using iv by (simp add: node_def inv_node_at)
  have F2: "d \<le> n_bit node" using walk_up_bit [OF dle(2)] by (simp add: node_def np_def)
  have F3: "np \<noteq> [] \<longrightarrow> n_bit (node_at head (butlast np)) < d"
    using walk_up_parent [of head stop d] by (simp add: np_def)
  have bb: "bits_below head np d"
  proof (cases "np = []")
    case True
    then show ?thesis by simp
  next
    case False
    with F3 nnn iv show ?thesis by (intro bits_below_parent [of "family p"]) (auto simp: node_def)
  qed
  have blm: "bitlen p \<le> m" using vp md by (simp add: valid_prefix_def)
  have lenp: "length (add p) * 8 = m" using valid_prefix_len [OF vp] md by simp
  have tpv: "family tp = family p" "valid_prefix tp"
    using inv_family [OF ivN tpN] by simp_all
  have mtp: "RADIX_MAXBITS_BY_PREFIX tp = m"
    using same_family_maxbits [OF tpv(1)] md by simp
  have lent: "length (add tp) * 8 = m"
    using valid_prefix_len [OF tpv(2)] mtp by simp
  have pok: "path_ok head np p"
    using path_ok_descended [OF iv ds [unfolded rest] bb dle(1) blm _ dag] tpS
    by (simp add: S_def rest)
  have sok: "\<forall>s \<in> pset node. path_ok head np s"
    using path_ok_stored [OF iv] by (simp add: node_def)
  have agN: "\<forall>s \<in> pset node. agree (add s) (add p) d"
  proof
    fix s assume "s \<in> pset node"
    from inv_agree [OF ivN nnn this tpN] F2 have "agree (add s) (add tp) d"
      by (rule agree_mono)
    moreover from dag have "agree (add tp) (add p) d" by (rule agree_sym)
    ultimately show "agree (add s) (add p) d" by (rule agree_trans)
  qed
  have SbitN: "n_bit node \<le> n_bit S"
    using node_at_bit_mono [OF iv, of np rest] Snn by (simp add: S_def node_def rest)
  have nbm: "n_bit node \<le> m"
  proof -
    from inv_bit_le [OF ivN nnn tpN] have "n_bit node \<le> bitlen tp" .
    also have "\<dots> \<le> m" using tpv(2) mtp by (simp add: valid_prefix_def)
    finally show ?thesis .
  qed
  obtain nb nq ndt nl nr where N: "node = Node nb nq ndt nl nr" using nnn by (cases node) auto
  have nat: "node_at head np = Node nb nq ndt nl nr" using N by (simp add: node_def)
  have valid_np: "node_at head np \<noteq> NULL" using nat by simp
  have parent_lt: "np \<noteq> [] \<longrightarrow> n_bit (node_at head (butlast np)) < nb"
    using F3 F2 N by auto
  note repl = inv_replace_at [OF iv valid_np]
  have cnt: "int (nodes (replace_at head np X)) = int (nodes head) + int (nodes X) - int (nodes node)"
    for X using nodes_replace_at_int [OF valid_np, of X] by (simp add: node_def)
  have nat': "node_at (RADIX_HEAD_BY_PREFIX radix p) np = Node nb nq ndt nl nr"
    using nat hd by simp
  have natn: "node_at (RADIX_HEAD_BY_PREFIX radix p) np = node"
    using hd by (simp add: node_def)
  have nbn: "n_bit node = nb" using N by simp
  let ?res = "lookup_attach avail radix p (add tp) d np"
  have goal: "\<exists>head' k r. ?res
        = Inr ((set_head radix p head')\<lparr>num_active_node := num_active_node radix + k\<rparr>, r)
     \<and> node_inv (family p) head'
     \<and> (r = None \<longrightarrow> head' = head)
     \<and> (2 \<le> avail \<longrightarrow> r \<noteq> None)
     \<and> (\<forall>q. r = Some q \<longrightarrow> int (nodes head') = int (nodes head) + k
            \<and> node_at head' q \<noteq> NULL
            \<and> (\<exists>s. n_prefix (node_at head' q) = Some s \<and> bitlen s = bitlen p
                   \<and> n_bit (node_at head' q) = bitlen p
                   \<and> agree (add s) (add p) (bitlen p)))"
  proof (cases "d = bitlen p \<and> nb = bitlen p")
    case exact: True
    show ?thesis
    proof (cases nq)
      case None
      define X where "X = Node nb (Some p) ndt nl nr"
      have r: "?res = Inr (set_head radix p (replace_at head np X), Some np)"
        using attach_exact_glue [OF nat' [unfolded None], of d avail "add tp"] exact
        by (simp add: hd X_def)
      have "\<forall>s\<in>pset nl \<union> pset nr. agree (add s) (add p) nb"
        using agN exact N None by auto
      from inv_materialize [OF ivN [unfolded N None] refl _ vp this] exact
      have iX: "node_inv (family p) X" by (simp add: X_def)
      have "node_inv (family p) (replace_at head np X)"
      proof (rule repl)
        show "X = NULL \<longrightarrow> np = [] \<or> n_prefix (node_at head (butlast np)) \<noteq> None"
          by (simp add: X_def)
        show "X \<noteq> NULL \<longrightarrow> node_inv (family p) X \<and> (np \<noteq> [] \<longrightarrow> n_bit (node_at head (butlast np)) < n_bit X)"
          using iX parent_lt by (simp add: X_def)
        show "\<forall>s\<in>pset X. path_ok head np s"
          using sok pok N None by (auto simp: X_def)
      qed
      moreover have "int (nodes (replace_at head np X)) = int (nodes head) + 0"
        using cnt [of X] N by (simp add: X_def)
      moreover have "node_at (replace_at head np X) np = X"
        by (rule node_at_replace_at [OF valid_np])
      moreover have "(set_head radix p (replace_at head np X))
           = (set_head radix p (replace_at head np X))\<lparr>num_active_node := num_active_node radix + 0\<rparr>"
        by (simp add: set_head_def)
      ultimately show ?thesis
        using r exact by (intro exI [of _ "replace_at head np X"] exI [of _ 0] exI [of _ "Some np"])
          (simp add: X_def agree_refl)
    next
      case (Some s)
      have r: "?res = Inr (radix, Some np)"
        using attach_exact_real [OF nat' [unfolded Some], of d avail "add tp"] exact by simp
      have "s \<in> pset node" using N Some by simp
      with agN exact have ag: "agree (add s) (add p) (bitlen p)" by simp
      have bs: "bitlen s = bitlen p" using invD(1) [OF ivN [unfolded N]] Some exact by simp
      have "radix = (set_head radix p head)\<lparr>num_active_node := num_active_node radix + 0\<rparr>"
        using set_head_same [of radix p] by (simp add: hd)
      with r have "?res = Inr ((set_head radix p head)\<lparr>num_active_node := num_active_node radix + 0\<rparr>, Some np)"
        by simp
      then show ?thesis
        using iv nat Some ag bs exact
        by (intro exI [of _ head] exI [of _ 0] exI [of _ "Some np"]) simp
    qed
  next
    case nex: False
    show ?thesis
    proof (cases "avail = 0")
      case True
      have r: "?res = Inr (radix, None)"
        using attach_no_memory [OF nat' nex, of "add tp"] True by simp
      have "radix = (set_head radix p head)\<lparr>num_active_node := num_active_node radix + 0\<rparr>"
        using set_head_same [of radix p] by (simp add: hd)
      with r have "?res = Inr ((set_head radix p head)\<lparr>num_active_node := num_active_node radix + 0\<rparr>, None)"
        by simp
      then show ?thesis
        using iv True by (intro exI [of _ head] exI [of _ 0] exI [of _ None]) simp
    next
      case av: False
      show ?thesis
      proof (cases "nb = d")
        case below: True
        with nex dle(1) have dlt: "d < bitlen p" by auto
        have rest_nil: "rest = []"
        proof (rule ccontr)
          assume "rest \<noteq> []"
          then obtain dir ds' where re: "rest = dir # ds'" by (cases rest) auto
          have "descended (node_at head np) (add p) (bitlen p) m rest"
            by (rule descended_append [OF ds [unfolded rest]])
          then have dN: "descended (Node nb nq ndt nl nr) (add p) (bitlen p) m (dir # ds')"
            by (simp only: nat re)
          then have dir: "dir = (nb < m \<and> abit (add p) nb)" by simp
          with below dlt blm have dir': "dir = abit (add p) d" by simp
          define c where "c = (if dir then nr else nl)"
          have Sc: "S = node_at c ds'" using SfromN N re by (simp add: c_def)
          with tpS have tc: "tp \<in> pset c" using pset_node_at by blast
          then have cnn: "c \<noteq> NULL" by auto
          have "abit (add tp) nb = dir"
            using invD(2,3) [OF ivN [unfolded N]] tc by (auto simp: c_def split: if_splits)
          with dir' below have same: "abit (add tp) d = abit (add p) d" by simp
          have ic: "node_inv (family p) c" using invD(7,8) [OF ivN [unfolded N]] by (simp add: c_def)
          have "nb < n_bit c" using invD(5,6) [OF ivN [unfolded N]] cnn by (auto simp: c_def)
          moreover have "n_bit c \<le> n_bit S"
            using node_at_bit_mono [OF ic, of "[]" ds'] Snn Sc by simp
          ultimately have "d < n_bit S" using below by simp
          with ddf dlt same show False by (simp add: S_def)
        qed
        then have stop_np: "stop = np" by (simp add: rest)
        from ds stop_np nat have dN: "descended (Node nb nq ndt nl nr) (add p) (bitlen p) m []"
          using descended_append [of head "add p" "bitlen p" m np "[]"] by simp
        with below dlt blm have slot: "(if abit (add p) nb then nr else nl) = NULL" and real: "nq \<noteq> None"
          by auto
        define dir where "dir = abit (add p) nb"
        have nbm': "nb < RADIX_MAXBITS_BY_PREFIX p" using below dlt blm md by simp
        have t: "BIT_TEST_SEARCH_BIT (add p) nb = Some dir"
          using test_in_range [OF lenp, of nb] below dlt blm by (simp add: dir_def)
        define X where "X = (if dir then Node nb nq ndt nl (new_leaf p) else Node nb nq ndt (new_leaf p) nr)"
        have r: "?res = Inr ((set_head radix p (replace_at head np X))
                   \<lparr>num_active_node := num_active_node radix + 1\<rparr>, Some (np @ [dir]))"
          using attach_below [OF nat' nex av below nbm' t, of "add tp"]
          by (simp add: hd X_def)
        have agb: "\<forall>s\<in>pset (Node nb nq ndt nl nr). agree (add s) (add p) nb"
          using agN below N by simp
        from inv_add_child [OF ivN [unfolded N] refl vp _ agb slot real] below dlt
        have iX: "node_inv (family p) X" by (simp add: X_def dir_def)
        have Xnn: "X \<noteq> NULL" "n_bit X = nb" by (simp_all add: X_def)
        have "node_inv (family p) (replace_at head np X)"
        proof (rule repl)
          show "X = NULL \<longrightarrow> np = [] \<or> n_prefix (node_at head (butlast np)) \<noteq> None"
            using Xnn by simp
          show "X \<noteq> NULL \<longrightarrow> node_inv (family p) X \<and> (np \<noteq> [] \<longrightarrow> n_bit (node_at head (butlast np)) < n_bit X)"
            using iX parent_lt Xnn by simp
          have "pset X \<subseteq> insert p (pset node)" by (auto simp: X_def N pset_new_leaf)
          with sok pok show "\<forall>s\<in>pset X. path_ok head np s" by blast
        qed
        moreover have "nodes X = nodes node + 1"
          using slot by (auto simp: X_def N dir_def new_leaf_def split: if_splits)
        then have "int (nodes (replace_at head np X)) = int (nodes head) + 1"
          using cnt [of X] by simp
        moreover have "node_at (replace_at head np X) (np @ [dir]) = new_leaf p"
          using node_at_replace_at [OF valid_np, of X] by (simp add: node_at_append X_def)
        ultimately show ?thesis
          using r
          by (intro exI [of _ "replace_at head np X"] exI [of _ 1] exI [of _ "Some (np @ [dir])"])
            (simp add: new_leaf_def agree_refl)
      next
        case nbel: False
        with F2 N have dnb: "d < nb" by simp
        show ?thesis
        proof (cases "bitlen p = d")
          case above: True
          from dnb nbm N have dm: "bitlen p < m" using above by simp
          define dir where "dir = abit (add tp) (bitlen p)"
          have dm': "bitlen p < RADIX_MAXBITS_BY_PREFIX p" using dm md by simp
          have t: "BIT_TEST_SEARCH_BIT (add tp) (bitlen p) = Some dir"
            using test_in_range [OF lent dm] by (simp add: dir_def)
          have nbd: "n_bit node \<noteq> d" using nbel nbn by simp
          define X where "X = (if dir then Node (bitlen p) (Some p) None NULL node
                               else Node (bitlen p) (Some p) None node NULL)"
          have r: "?res = Inr ((set_head radix p (replace_at head np X))
                   \<lparr>num_active_node := num_active_node radix + 1\<rparr>, Some np)"
            using attach_above [OF natn nnn nbd av above dm' t]
            by (simp add: hd X_def)
          have side: "\<forall>s\<in>pset node. abit (add s) (bitlen p) = dir"
          proof
            fix s assume "s \<in> pset node"
            from inv_agree [OF ivN nnn this tpN] have "agree (add s) (add tp) (n_bit node)" .
            from agree_abit [OF this, of "bitlen p"] dnb N above show "abit (add s) (bitlen p) = dir"
              by (simp add: dir_def)
          qed
          have agb: "\<forall>s\<in>pset node. agree (add s) (add p) (bitlen p)" using agN above by simp
          have "bitlen p < n_bit node" using dnb N above by simp
          from inv_above [OF ivN nnn this refl vp agb side]
          have iX: "node_inv (family p) X" by (simp add: X_def)
          have Xnn: "X \<noteq> NULL" "n_bit X = bitlen p" by (simp_all add: X_def)
          have "node_inv (family p) (replace_at head np X)"
          proof (rule repl)
            show "X = NULL \<longrightarrow> np = [] \<or> n_prefix (node_at head (butlast np)) \<noteq> None"
              using Xnn by simp
            show "X \<noteq> NULL \<longrightarrow> node_inv (family p) X \<and> (np \<noteq> [] \<longrightarrow> n_bit (node_at head (butlast np)) < n_bit X)"
              using iX F3 Xnn above by simp
            have "pset X \<subseteq> insert p (pset node)" by (auto simp: X_def)
            with sok pok show "\<forall>s\<in>pset X. path_ok head np s" by blast
          qed
          moreover have "nodes X = nodes node + 1" by (simp add: X_def)
          then have "int (nodes (replace_at head np X)) = int (nodes head) + 1"
            using cnt [of X] by simp
          moreover have "node_at (replace_at head np X) np = X"
            by (rule node_at_replace_at [OF valid_np])
          ultimately show ?thesis
            using r
            by (intro exI [of _ "replace_at head np X"] exI [of _ 1] exI [of _ "Some np"])
              (simp add: X_def agree_refl)
        next
          case fork: False
          with dle(1) have dlt: "d < bitlen p" by simp
          show ?thesis
          proof (cases "avail = 1")
            case True
            have nbd: "n_bit node \<noteq> d" using nbel nbn by simp
            have r: "?res = Inr (radix\<lparr>num_active_node := num_active_node radix + 1\<rparr>, None)"
              using attach_glue_no_memory [OF natn nbd fork, of "add tp"] True by simp
            have "radix\<lparr>num_active_node := num_active_node radix + 1\<rparr>
                = (set_head radix p head)\<lparr>num_active_node := num_active_node radix + 1\<rparr>"
              using set_head_same [of radix p] by (simp add: hd)
            with r have "?res = Inr ((set_head radix p head)\<lparr>num_active_node := num_active_node radix + 1\<rparr>, None)"
              by simp
            then show ?thesis
              using iv True by (intro exI [of _ head] exI [of _ 1] exI [of _ None]) simp
          next
            case av2: False
            define dir where "dir = abit (add p) d"
            have dm: "d < m" using dlt blm by simp
            have dm': "d < RADIX_MAXBITS_BY_PREFIX p" using dm md by simp
            have t: "BIT_TEST_SEARCH_BIT (add p) d = Some dir"
              using test_in_range [OF lenp dm] by (simp add: dir_def)
            have nbd: "n_bit node \<noteq> d" using nbel nbn by simp
            define X where "X = (if dir then Node d None None node (new_leaf p)
                                 else Node d None None (new_leaf p) node)"
            have r: "?res = Inr ((set_head radix p (replace_at head np X))
                   \<lparr>num_active_node := num_active_node radix + 2\<rparr>, Some (np @ [dir]))"
              using attach_fork [OF natn nbd fork av av2 dm' t, of "add tp"]
              by (simp add: hd X_def)
            have dS: "d < n_bit S" using dnb SbitN N by simp
            with ddf dlt have dif: "abit (add p) d \<noteq> abit (add tp) d" by (simp add: S_def)
            have side: "\<forall>s\<in>pset node. abit (add s) d \<noteq> abit (add p) d"
            proof
              fix s assume "s \<in> pset node"
              from inv_agree [OF ivN nnn this tpN] have "agree (add s) (add tp) (n_bit node)" .
              from agree_abit [OF this, of d] dnb N dif show "abit (add s) d \<noteq> abit (add p) d"
                by simp
            qed
            have "d < n_bit node" using dnb N by simp
            from inv_fork [OF ivN nnn this dlt refl vp agN side]
            have iX: "node_inv (family p) X" by (simp add: X_def dir_def)
            have Xnn: "X \<noteq> NULL" "n_bit X = d" by (simp_all add: X_def)
            have "node_inv (family p) (replace_at head np X)"
            proof (rule repl)
              show "X = NULL \<longrightarrow> np = [] \<or> n_prefix (node_at head (butlast np)) \<noteq> None"
                using Xnn by simp
              show "X \<noteq> NULL \<longrightarrow> node_inv (family p) X \<and> (np \<noteq> [] \<longrightarrow> n_bit (node_at head (butlast np)) < n_bit X)"
                using iX F3 Xnn by simp
              have "pset X \<subseteq> insert p (pset node)" by (auto simp: X_def pset_new_leaf)
              with sok pok show "\<forall>s\<in>pset X. path_ok head np s" by blast
            qed
            moreover have "nodes X = nodes node + 2" by (simp add: X_def new_leaf_def)
            then have "int (nodes (replace_at head np X)) = int (nodes head) + 2"
              using cnt [of X] by simp
            moreover have "node_at (replace_at head np X) (np @ [dir]) = new_leaf p"
              using node_at_replace_at [OF valid_np, of X] by (simp add: node_at_append X_def)
            ultimately show ?thesis
              using r
              by (intro exI [of _ "replace_at head np X"] exI [of _ 2] exI [of _ "Some (np @ [dir])"])
                (simp add: new_leaf_def agree_refl)
          qed
        qed
      qed
    qed
  qed
  then show ?thesis by (simp add: np_def)
qed

section \<open>\<^verbatim>\<open>radix_lookup\<close> on a well-formed tree\<close>

definition tree_inv :: "radix_tree_t \<Rightarrow> bool" where
  "tree_inv radix = (node_inv AF_INET (head_ipv4 radix) \<and> node_inv AF_INET6 (head_ipv6 radix))"

definition total_nodes :: "radix_tree_t \<Rightarrow> nat" where
  "total_nodes radix = nodes (head_ipv4 radix) + nodes (head_ipv6 radix)"

lemma head_by_prefix: "RADIX_HEAD_BY_PREFIX radix p = head_by_family radix (family p)"
  by (simp add: RADIX_HEAD_BY_PREFIX_def head_by_family_def)

lemma tree_inv_head: "tree_inv radix \<Longrightarrow> node_inv fam (head_by_family radix fam)"
  by (cases fam) (auto simp: tree_inv_def head_by_family_def)

lemma tree_inv_set_head:
  "tree_inv radix \<Longrightarrow> node_inv (family p) h
   \<Longrightarrow> tree_inv ((set_head radix p h)\<lparr>num_active_node := k\<rparr>)"
  by (cases "family p") (auto simp: tree_inv_def set_head_def)

lemma head_set_head:
  "head_by_family ((set_head radix p h)\<lparr>num_active_node := k\<rparr>) fam
     = (if fam = family p then h else head_by_family radix fam)"
  by (cases fam; cases "family p") (auto simp: set_head_def head_by_family_def)

lemma total_nodes_set_head:
  "int (total_nodes ((set_head radix p h)\<lparr>num_active_node := k\<rparr>))
     = int (total_nodes radix) + int (nodes h) - int (nodes (head_by_family radix (family p)))"
  by (cases "family p") (auto simp: set_head_def head_by_family_def total_nodes_def)

lemma num_set_head:
  "num_active_node ((set_head radix p h)\<lparr>num_active_node := k\<rparr>) = k"
  by (simp add: set_head_def)

text \<open>What a call of radix_lookup on a well-formed tree gives.\<close>

lemma radix_lookup_ok:
  assumes ti: "tree_inv radix" and vp: "valid_prefix p"
  shows "\<exists>radix' r. radix_lookup avail radix p = Inr (radix', r)
     \<and> tree_inv radix'
     \<and> (\<forall>fam. fam \<noteq> family p \<longrightarrow> head_by_family radix' fam = head_by_family radix fam)
     \<and> (r = None \<longrightarrow> head_by_family radix' (family p) = head_by_family radix (family p))
     \<and> (2 \<le> avail \<longrightarrow> r \<noteq> None)
     \<and> (\<forall>q. r = Some q \<longrightarrow>
            num_active_node radix' - num_active_node radix
              = int (total_nodes radix') - int (total_nodes radix)
            \<and> node_at (head_by_family radix' (family p)) q \<noteq> NULL
            \<and> (\<exists>s. n_prefix (node_at (head_by_family radix' (family p)) q) = Some s
                   \<and> bitlen s = bitlen p
                   \<and> n_bit (node_at (head_by_family radix' (family p)) q) = bitlen p
                   \<and> agree (add s) (add p) (bitlen p)))"
proof -
  define head where "head = RADIX_HEAD_BY_PREFIX radix p"
  define m where "m = RADIX_MAXBITS_BY_PREFIX p"
  have hd: "RADIX_HEAD_BY_PREFIX radix p = head" by (simp add: head_def)
  have md: "RADIX_MAXBITS_BY_PREFIX p = m" by (simp add: m_def)
  have hf: "head_by_family radix (family p) = head" by (simp add: head_def head_by_prefix)
  have iv: "node_inv (family p) head" using tree_inv_head [OF ti] hf by metis
  have lenp: "length (add p) * 8 = m" using valid_prefix_len [OF vp] md by simp
  have blm: "bitlen p \<le> m" using vp md by (simp add: valid_prefix_def)
  have shape: "\<exists>radix' r. radix_lookup avail radix p = Inr (radix', r) \<and>
      (\<exists>head' k. radix' = (set_head radix p head')\<lparr>num_active_node := num_active_node radix + k\<rparr>
     \<and> node_inv (family p) head'
     \<and> (r = None \<longrightarrow> head' = head)
     \<and> (2 \<le> avail \<longrightarrow> r \<noteq> None)
     \<and> (\<forall>q. r = Some q \<longrightarrow> int (nodes head') = int (nodes head) + k
            \<and> node_at head' q \<noteq> NULL
            \<and> (\<exists>s. n_prefix (node_at head' q) = Some s \<and> bitlen s = bitlen p
                   \<and> n_bit (node_at head' q) = bitlen p
                   \<and> agree (add s) (add p) (bitlen p))))"
  proof (cases "head = NULL")
    case True
    show ?thesis
    proof (cases "avail = 0")
      case a0: True
      have "radix_lookup avail radix p = Inr (radix, None)"
        using True a0 by (simp add: radix_lookup_def Let_def hd)
      moreover have "radix = (set_head radix p head)\<lparr>num_active_node := num_active_node radix + 0\<rparr>"
        using set_head_same [of radix p] by (simp add: hd)
      ultimately show ?thesis using iv a0
        by (intro exI [of _ radix] exI [of _ None] conjI exI [of _ head] exI [of _ 0]) simp_all
    next
      case a1: False
      have r: "radix_lookup avail radix p
          = Inr ((set_head radix p (new_leaf p))\<lparr>num_active_node := num_active_node radix + 1\<rparr>, Some [])"
        using True a1 by (simp add: radix_lookup_def Let_def hd)
      have "node_inv (family p) (new_leaf p)" using vp by (simp add: inv_new_leaf)
      then show ?thesis
        using r True
        by (intro exI [of _ "(set_head radix p (new_leaf p))\<lparr>num_active_node := num_active_node radix + 1\<rparr>"]
              exI [of _ "Some []"] conjI exI [of _ "new_leaf p"] exI [of _ 1])
          (simp_all add: new_leaf_def agree_refl)
    qed
  next
    case False
    from lookup_descend_descended [OF iv False lenp, of "bitlen p"] obtain stop where
      ld: "lookup_descend head (add p) (bitlen p) m = Inr stop"
      and ds: "descended head (add p) (bitlen p) m stop" by blast
    define S where "S = node_at head stop"
    from descended_real [OF ds] obtain tp where tp: "n_prefix S = Some tp" by (auto simp: S_def)
    have Snn: "S \<noteq> NULL" using descended_not_NULL [OF ds] by (simp add: S_def)
    have tpS: "tp \<in> pset S" using tp Snn by (cases S) auto
    have "node_inv (family p) S" using iv by (simp add: S_def inv_node_at)
    from inv_family [OF this tpS] have tpv: "family tp = family p" "valid_prefix tp" by simp_all
    have lent: "length (add tp) * 8 = m"
      using valid_prefix_len [OF tpv(2)] same_family_maxbits [OF tpv(1)] md by simp
    define c where "c = (if n_bit S < bitlen p then n_bit S else bitlen p)"
    have cle: "c \<le> bitlen p" "c \<le> n_bit S" by (simp_all add: c_def)
    have "c \<le> 8 * length (add p)" "c \<le> 8 * length (add tp)"
      using cle(1) blm lenp lent by simp_all
    from differ_bit_of_spec [OF this] obtain d where
      db: "differ_bit_of (add p) (add tp) c = Inr d" and dc: "d \<le> c"
      and dag: "agree (add p) (add tp) d" and ddf: "d < c \<longrightarrow> abit (add p) d \<noteq> abit (add tp) d"
      by blast
    have dle: "d \<le> bitlen p" "d \<le> n_bit (node_at head stop)" using dc cle by (simp_all add: S_def)
    have ddf': "d < bitlen p \<and> d < n_bit (node_at head stop) \<longrightarrow> abit (add p) d \<noteq> abit (add tp) d"
      using ddf by (simp add: c_def S_def)
    have tp': "n_prefix (node_at head stop) = Some tp" using tp by (simp add: S_def)
    have db': "differ_bit_of (add p) (add tp)
        (if n_bit (node_at head stop) < bitlen p then n_bit (node_at head stop) else bitlen p) = Inr d"
      using db by (simp only: c_def S_def)
    have eq: "radix_lookup avail radix p
        = lookup_attach avail radix p (add tp) d (walk_up head stop d)"
      using False by (simp add: radix_lookup_def Let_def hd md ld tp' db' split del: if_split)
    from lookup_attach_ok [OF hd md iv vp ds tp' dle dag ddf', of avail]
    obtain head' k r where
      la: "lookup_attach avail radix p (add tp) d (walk_up head stop d)
        = Inr ((set_head radix p head')\<lparr>num_active_node := num_active_node radix + k\<rparr>, r)"
      and P: "node_inv (family p) head'
     \<and> (r = None \<longrightarrow> head' = head)
     \<and> (2 \<le> avail \<longrightarrow> r \<noteq> None)
     \<and> (\<forall>q. r = Some q \<longrightarrow> int (nodes head') = int (nodes head) + k
            \<and> node_at head' q \<noteq> NULL
            \<and> (\<exists>s. n_prefix (node_at head' q) = Some s \<and> bitlen s = bitlen p
                   \<and> n_bit (node_at head' q) = bitlen p
                   \<and> agree (add s) (add p) (bitlen p)))"
      by blast
    have "radix_lookup avail radix p
        = Inr ((set_head radix p head')\<lparr>num_active_node := num_active_node radix + k\<rparr>, r)"
      using eq la by simp
    moreover have "\<exists>h' k'. (set_head radix p head')\<lparr>num_active_node := num_active_node radix + k\<rparr>
        = (set_head radix p h')\<lparr>num_active_node := num_active_node radix + k'\<rparr>
     \<and> node_inv (family p) h'
     \<and> (r = None \<longrightarrow> h' = head)
     \<and> (2 \<le> avail \<longrightarrow> r \<noteq> None)
     \<and> (\<forall>q. r = Some q \<longrightarrow> int (nodes h') = int (nodes head) + k'
            \<and> node_at h' q \<noteq> NULL
            \<and> (\<exists>s. n_prefix (node_at h' q) = Some s \<and> bitlen s = bitlen p
                   \<and> n_bit (node_at h' q) = bitlen p
                   \<and> agree (add s) (add p) (bitlen p)))"
      using P by (intro exI [of _ head'] exI [of _ k]) simp
    ultimately show ?thesis by blast
  qed
  then obtain radix' r head' k where
    res: "radix_lookup avail radix p = Inr (radix', r)"
    and r': "radix' = (set_head radix p head')\<lparr>num_active_node := num_active_node radix + k\<rparr>"
    and iv': "node_inv (family p) head'"
    and rn: "r = None \<longrightarrow> head' = head"
    and av: "2 \<le> avail \<longrightarrow> r \<noteq> None"
    and rs: "\<forall>q. r = Some q \<longrightarrow> int (nodes head') = int (nodes head) + k
            \<and> node_at head' q \<noteq> NULL
            \<and> (\<exists>s. n_prefix (node_at head' q) = Some s \<and> bitlen s = bitlen p
                   \<and> n_bit (node_at head' q) = bitlen p
                   \<and> agree (add s) (add p) (bitlen p))"
    by blast
  have h': "head_by_family radix' (family p) = head'" by (simp add: r' head_set_head)
  have oth: "\<forall>fam. fam \<noteq> family p \<longrightarrow> head_by_family radix' fam = head_by_family radix fam"
    by (simp add: r' head_set_head)
  have ti': "tree_inv radix'" unfolding r' by (rule tree_inv_set_head [OF ti iv'])
  have tn: "int (total_nodes radix') = int (total_nodes radix) + int (nodes head') - int (nodes head)"
    unfolding r' by (simp add: total_nodes_set_head hf)
  have nm: "num_active_node radix' = num_active_node radix + k" by (simp add: r' num_set_head)
  show ?thesis
    using res ti' oth rn av rs tn nm
    by (intro exI [of _ radix'] exI [of _ r]) (auto simp: h' hf)
qed

section \<open>\<^verbatim>\<open>radix_remove\<close> on a well-formed tree\<close>

lemma parent_bit:
  assumes "node_inv fam head" "node_at head np \<noteq> NULL" "np \<noteq> []"
  shows "n_bit (node_at head (butlast np)) < n_bit (node_at head np)"
proof -
  from assms(3) have e: "np = butlast np @ [last np]" by simp
  from node_at_snoc_bit [OF assms(1), of "butlast np" "last np"] assms(2) e
  show ?thesis by simp
qed

lemma set_head_family:
  "family s = fam \<Longrightarrow>
   head_by_family ((set_head radix s h)\<lparr>num_active_node := k\<rparr>) f
     = (if f = fam then h else head_by_family radix f)"
  by (simp add: head_set_head)

lemma remove_two:
  assumes "node_at (head_by_family radix fam) np = Node b (Some s) dt l r" "family s = fam"
    "r \<noteq> NULL" "l \<noteq> NULL"
  shows "radix_remove radix fam np
    = Inr (set_head radix s (replace_at (head_by_family radix fam) np (Node b None None l r)))"
  using assms by (simp add: radix_remove_def Let_def)

lemma remove_leaf_root:
  assumes "node_at (head_by_family radix fam) [] = Node b (Some s) dt NULL NULL" "family s = fam"
  shows "radix_remove radix fam []
    = Inr ((set_head radix s NULL)\<lparr>num_active_node := num_active_node radix - 1\<rparr>)"
  using assms by (simp add: radix_remove_def Let_def)

lemma remove_leaf_real_parent:
  assumes "node_at (head_by_family radix fam) np = Node b (Some s) dt NULL NULL" "family s = fam"
    "np \<noteq> []" "n_prefix (node_at (head_by_family radix fam) (butlast np)) \<noteq> None"
  shows "radix_remove radix fam np
    = Inr ((set_head radix s (replace_at (head_by_family radix fam) np NULL))
            \<lparr>num_active_node := num_active_node radix - 1\<rparr>)"
  using assms by (simp add: radix_remove_def Let_def)

lemma remove_leaf_glue_parent:
  assumes "node_at (head_by_family radix fam) np = Node b (Some s) dt NULL NULL" "family s = fam"
    "np \<noteq> []" "n_prefix (node_at (head_by_family radix fam) (butlast np)) = None"
    "child = (if last np then n_l (node_at (head_by_family radix fam) (butlast np))
              else n_r (node_at (head_by_family radix fam) (butlast np)))"
    "child \<noteq> NULL"
  shows "radix_remove radix fam np
    = Inr ((set_head radix s (replace_at (head_by_family radix fam) (butlast np) child))
            \<lparr>num_active_node := num_active_node radix - 2\<rparr>)"
  using assms by (simp add: radix_remove_def Let_def)

lemma remove_one:
  assumes "node_at (head_by_family radix fam) np = Node b (Some s) dt l r" "family s = fam"
    "\<not> (r \<noteq> NULL \<and> l \<noteq> NULL)" "\<not> (r = NULL \<and> l = NULL)"
  shows "radix_remove radix fam np
    = Inr ((set_head radix s (replace_at (head_by_family radix fam) np (if r \<noteq> NULL then r else l)))
            \<lparr>num_active_node := num_active_node radix - 1\<rparr>)"
  using assms by (auto simp: radix_remove_def Let_def)

lemma radix_remove_ok:
  assumes ti: "tree_inv radix"
    and nn: "node_at (head_by_family radix fam) np \<noteq> NULL"
    and real: "n_prefix (node_at (head_by_family radix fam) np) \<noteq> None"
  shows "\<exists>radix'. radix_remove radix fam np = Inr radix' \<and> tree_inv radix'
     \<and> (\<forall>f. f \<noteq> fam \<longrightarrow> head_by_family radix' f = head_by_family radix f)
     \<and> num_active_node radix' - num_active_node radix
          = int (total_nodes radix') - int (total_nodes radix)"
proof -
  define head where "head = head_by_family radix fam"
  have iv: "node_inv fam head" using tree_inv_head [OF ti] by (simp add: head_def)
  obtain b q dt l r where N: "node_at head np = Node b q dt l r"
    using nn by (cases "node_at head np") (auto simp: head_def)
  from real N obtain s where q: "q = Some s" by (auto simp: head_def)
  have ivN: "node_inv fam (Node b q dt l r)" using inv_node_at [OF iv, of np] N by simp
  note ivd = invD [OF ivN]
  from ivd(1) q have fs: "family s = fam" by simp
  have valid_np: "node_at head np \<noteq> NULL" using N by simp
  have sok: "\<forall>s' \<in> pset (Node b q dt l r). path_ok head np s'"
    using path_ok_stored [OF iv, of _ np] N by simp
  have pbit: "np \<noteq> [] \<longrightarrow> n_bit (node_at head (butlast np)) < b"
    using parent_bit [OF iv valid_np] N by simp
  have hf: "head_by_family radix (family s) = head" by (simp add: head_def fs)
  have fin: "\<exists>radix'. radix_remove radix fam np = Inr radix' \<and> tree_inv radix'
     \<and> (\<forall>f. f \<noteq> fam \<longrightarrow> head_by_family radix' f = head_by_family radix f)
     \<and> num_active_node radix' - num_active_node radix
          = int (total_nodes radix') - int (total_nodes radix)"
    if r: "radix_remove radix fam np
        = Inr ((set_head radix s h)\<lparr>num_active_node := num_active_node radix + k\<rparr>)"
      and ih: "node_inv fam h" and ct: "int (nodes h) = int (nodes head) + k" for h k
  proof -
    let ?r = "(set_head radix s h)\<lparr>num_active_node := num_active_node radix + k\<rparr>"
    have "tree_inv ?r" using tree_inv_set_head [OF ti, of s h] ih fs by simp
    moreover have "\<forall>f. f \<noteq> fam \<longrightarrow> head_by_family ?r f = head_by_family radix f"
      using set_head_family [OF fs] by simp
    moreover have "num_active_node ?r - num_active_node radix
          = int (total_nodes ?r) - int (total_nodes radix)"
      using ct by (simp add: total_nodes_set_head num_set_head hf)
    ultimately show ?thesis using r by blast
  qed
  have N': "node_at (head_by_family radix fam) np = Node b (Some s) dt l r"
    using N q by (simp add: head_def)
  show ?thesis
  proof (cases "r \<noteq> NULL \<and> l \<noteq> NULL")
    case True
    define X where "X = Node b None None l r"
    have "radix_remove radix fam np = Inr (set_head radix s (replace_at head np X))"
      using remove_two [OF N' fs] True by (simp add: head_def X_def)
    then have r: "radix_remove radix fam np
        = Inr ((set_head radix s (replace_at head np X))\<lparr>num_active_node := num_active_node radix + 0\<rparr>)"
      by (simp add: set_head_def)
    have iX: "node_inv fam X"
      unfolding X_def by (rule invI) (use ivd True in \<open>auto simp: q\<close>)
    have "node_inv fam (replace_at head np X)"
    proof (rule inv_replace_at [OF iv valid_np])
      show "X = NULL \<longrightarrow> np = [] \<or> n_prefix (node_at head (butlast np)) \<noteq> None"
        by (simp add: X_def)
      show "X \<noteq> NULL \<longrightarrow> node_inv fam X \<and> (np \<noteq> [] \<longrightarrow> n_bit (node_at head (butlast np)) < n_bit X)"
        using iX pbit by (simp add: X_def)
      show "\<forall>s\<in>pset X. path_ok head np s" using sok by (simp add: X_def)
    qed
    moreover have "int (nodes (replace_at head np X)) = int (nodes head) + 0"
      using nodes_replace_at_int [OF valid_np, of X] N by (simp add: X_def)
    ultimately show ?thesis using fin [OF r] by simp
  next
    case two: False
    show ?thesis
    proof (cases "r = NULL \<and> l = NULL")
      case leaf: True
      show ?thesis
      proof (cases "np = []")
        case True
        have r: "radix_remove radix fam np
          = Inr ((set_head radix s NULL)\<lparr>num_active_node := num_active_node radix + (- 1)\<rparr>)"
          using remove_leaf_root [of radix fam b s dt] N' True leaf fs by simp
        have "int (nodes NULL) = int (nodes head) + (- 1)" using N True leaf by simp
        with fin [OF r] show ?thesis by simp
      next
        case False
        define pp where "pp = butlast np"
        define parent where "parent = node_at head pp"
        define child where "child = (if last np then n_l parent else n_r parent)"
        have npe: "np = pp @ [last np]" using False by (simp add: pp_def)
        have pnn: "parent \<noteq> NULL"
          using valid_np npe by (metis node_at_append node_at_NULL parent_def)
        then obtain pb pq pdt pl pr where P: "parent = Node pb pq pdt pl pr" by (cases parent) auto
        have ivP: "node_inv fam parent" using inv_node_at [OF iv] by (simp add: parent_def)
        note ivpd = invD [OF ivP [unfolded P]]
        have nodeP: "node_at parent [last np] = Node b q dt l r"
          using N npe by (metis node_at_append parent_def)
        show ?thesis
        proof (cases "pq \<noteq> None")
          case True
          have r: "radix_remove radix fam np
            = Inr ((set_head radix s (replace_at head np NULL))
                \<lparr>num_active_node := num_active_node radix + (- 1)\<rparr>)"
            using remove_leaf_real_parent [of radix fam np b s dt] N' leaf fs False True P
            by (simp add: head_def pp_def parent_def)
          have "node_inv fam (replace_at head np NULL)"
          proof (rule inv_replace_at [OF iv valid_np])
            show "NULL = NULL \<longrightarrow> np = [] \<or> n_prefix (node_at head (butlast np)) \<noteq> None"
              using True P by (simp add: pp_def [symmetric] parent_def [symmetric])
          qed simp_all
          moreover have "int (nodes (replace_at head np NULL)) = int (nodes head) + (- 1)"
            using nodes_replace_at_int [OF valid_np, of NULL] N leaf by simp
          ultimately show ?thesis using fin [OF r] by simp
        next
          case glue: False
          then have pqn: "pq = None" by simp
          with ivpd(1) have both: "pl \<noteq> NULL" "pr \<noteq> NULL" by simp_all
          have cnn: "child \<noteq> NULL" using both P by (simp add: child_def)
          have pat: "node_at (head_by_family radix fam) (butlast np) = Node pb pq pdt pl pr"
            using P by (simp only: parent_def pp_def head_def)
          have pN: "n_prefix (node_at (head_by_family radix fam) (butlast np)) = None"
            using pqn by (simp add: pat)
          have ce: "child = (if last np then n_l (node_at (head_by_family radix fam) (butlast np))
              else n_r (node_at (head_by_family radix fam) (butlast np)))"
            by (simp only: child_def parent_def pp_def head_def)
          have leafN: "node_at (head_by_family radix fam) np = Node b (Some s) dt NULL NULL"
            using N' leaf by simp
          have "radix_remove radix fam np
            = Inr ((set_head radix s (replace_at head pp child))
                \<lparr>num_active_node := num_active_node radix - 2\<rparr>)"
            using remove_leaf_glue_parent [OF leafN fs False pN ce cnn]
            by (simp only: head_def pp_def)
          then have r: "radix_remove radix fam np
            = Inr ((set_head radix s (replace_at head pp child))
                \<lparr>num_active_node := num_active_node radix + (- 2)\<rparr>)"
            by simp
          have vpp: "node_at head pp \<noteq> NULL" using pnn by (simp add: parent_def)
          have ivc: "node_inv fam child" using ivpd(7,8) P by (simp add: child_def)
          have cb: "pb < n_bit child" using ivpd(5,6) both P by (simp add: child_def)
          have "node_inv fam (replace_at head pp child)"
          proof (rule inv_replace_at [OF iv vpp])
            show "child = NULL \<longrightarrow> pp = [] \<or> n_prefix (node_at head (butlast pp)) \<noteq> None"
              using cnn by simp
            show "child \<noteq> NULL \<longrightarrow> node_inv fam child \<and>
                (pp \<noteq> [] \<longrightarrow> n_bit (node_at head (butlast pp)) < n_bit child)"
              using ivc cb parent_bit [OF iv vpp] P by (auto simp: parent_def [symmetric])
            have "pset child \<subseteq> pset parent" using P by (auto simp: child_def)
            then show "\<forall>s\<in>pset child. path_ok head pp s"
              using path_ok_stored [OF iv, of _ pp] by (auto simp: parent_def)
          qed
          moreover have "nodes parent = nodes child + 2"
          proof (cases "last np")
            case True
            with nodeP P have "pr = Node b q dt l r" by simp
            with leaf P True show ?thesis by (simp add: child_def)
          next
            case False
            with nodeP P have "pl = Node b q dt l r" by simp
            with leaf P False show ?thesis by (simp add: child_def)
          qed
          then have "int (nodes (replace_at head pp child)) = int (nodes head) + (- 2)"
            using nodes_replace_at_int [OF vpp, of child] by (simp add: parent_def)
          ultimately show ?thesis using fin [OF r] by simp
        qed
      qed
    next
      case one: False
      define X where "X = (if r \<noteq> NULL then r else l)"
      have r: "radix_remove radix fam np
        = Inr ((set_head radix s (replace_at head np X))
            \<lparr>num_active_node := num_active_node radix + (- 1)\<rparr>)"
        using remove_one [OF N' fs two one] by (simp add: head_def X_def)
      have Xnn: "X \<noteq> NULL" using two one by (auto simp: X_def)
      have iX: "node_inv fam X" using ivd(7,8) by (simp add: X_def)
      have Xb: "b < n_bit X" using ivd(5,6) Xnn by (auto simp: X_def)
      have "node_inv fam (replace_at head np X)"
      proof (rule inv_replace_at [OF iv valid_np])
        show "X = NULL \<longrightarrow> np = [] \<or> n_prefix (node_at head (butlast np)) \<noteq> None"
          using Xnn by simp
        show "X \<noteq> NULL \<longrightarrow> node_inv fam X \<and> (np \<noteq> [] \<longrightarrow> n_bit (node_at head (butlast np)) < n_bit X)"
          using iX pbit Xb by auto
        have "pset X \<subseteq> pset (Node b q dt l r)" by (auto simp: X_def)
        with sok show "\<forall>s\<in>pset X. path_ok head np s" by blast
      qed
      moreover have "nodes (Node b q dt l r) = nodes X + 1"
        using two one by (auto simp: X_def)
      then have "int (nodes (replace_at head np X)) = int (nodes head) + (- 1)"
        using nodes_replace_at_int [OF valid_np, of X] N by simp
      ultimately show ?thesis using fin [OF r] by simp
    qed
  qed
qed

section \<open>Trees built by inserts and deletes\<close>

text \<open>
  The trees that inserts and deletes build from a new tree: a call of radix_lookup with a
  prefix of its family that returns a node, a call of radix_remove on a node with a
  prefix, and the binding hanging an object on such a node.
\<close>

definition store_data :: "radix_tree_t \<Rightarrow> family \<Rightarrow> node_ptr \<Rightarrow> nat option \<Rightarrow> radix_tree_t" where
  "store_data radix fam np d =
     (if fam = AF_INET
      then radix\<lparr>head_ipv4 := replace_at (head_ipv4 radix) np
                                  (set_data (node_at (head_ipv4 radix) np) d)\<rparr>
      else radix\<lparr>head_ipv6 := replace_at (head_ipv6 radix) np
                                  (set_data (node_at (head_ipv6 radix) np) d)\<rparr>)"

definition real_node :: "radix_tree_t \<Rightarrow> family \<Rightarrow> node_ptr \<Rightarrow> bool" where
  "real_node radix fam np =
     (node_at (head_by_family radix fam) np \<noteq> NULL
      \<and> n_prefix (node_at (head_by_family radix fam) np) \<noteq> None)"

inductive reachable :: "radix_tree_t \<Rightarrow> bool" where
  new: "reachable New_Radix"
| insert: "reachable radix \<Longrightarrow> valid_prefix p
     \<Longrightarrow> radix_lookup avail radix p = Inr (radix', Some np) \<Longrightarrow> reachable radix'"
| remove: "reachable radix \<Longrightarrow> real_node radix fam np
     \<Longrightarrow> radix_remove radix fam np = Inr radix' \<Longrightarrow> reachable radix'"
| data: "reachable radix \<Longrightarrow> real_node radix fam np
     \<Longrightarrow> reachable (store_data radix fam np d)"

lemma pset_set_data: "pset (set_data n d) = pset n"
  by (cases n) (simp_all add: set_data_def)

lemma node_inv_set_data: "node_inv fam n \<Longrightarrow> node_inv fam (set_data n d)"
  by (cases n) (simp_all add: set_data_def)

lemma nodes_set_data: "nodes (set_data n d) = nodes n"
  by (cases n) (simp_all add: set_data_def)

lemma n_bit_set_data: "n \<noteq> NULL \<Longrightarrow> n_bit (set_data n d) = n_bit n \<and> set_data n d \<noteq> NULL"
  by (cases n) (simp_all add: set_data_def)

lemma node_inv_store:
  assumes "node_inv fam head" "node_at head np \<noteq> NULL"
  shows "node_inv fam (replace_at head np (set_data (node_at head np) d))"
proof (rule inv_replace_at [OF assms])
  let ?X = "set_data (node_at head np) d"
  show "?X = NULL \<longrightarrow> np = [] \<or> n_prefix (node_at head (butlast np)) \<noteq> None"
    using n_bit_set_data [OF assms(2)] by simp
  show "?X \<noteq> NULL \<longrightarrow> node_inv fam ?X \<and> (np \<noteq> [] \<longrightarrow> n_bit (node_at head (butlast np)) < n_bit ?X)"
    using n_bit_set_data [OF assms(2), of d] parent_bit [OF assms]
      node_inv_set_data [OF inv_node_at [OF assms(1), of np], of d] by simp
  show "\<forall>s\<in>pset ?X. path_ok head np s"
    using path_ok_stored [OF assms(1), of _ np] by (simp add: pset_set_data)
qed

lemma nodes_store:
  assumes "node_at head np \<noteq> NULL"
  shows "nodes (replace_at head np (set_data (node_at head np) d)) = nodes head"
  using nodes_replace_at [OF assms, of "set_data (node_at head np) d"] by (simp add: nodes_set_data)

lemma store_data_ok:
  assumes "tree_inv radix" "real_node radix fam np"
  shows "tree_inv (store_data radix fam np d)
       \<and> total_nodes (store_data radix fam np d) = total_nodes radix
       \<and> num_active_node (store_data radix fam np d) = num_active_node radix"
proof (cases fam)
  case AF_INET
  with assms(2) have nn: "node_at (head_ipv4 radix) np \<noteq> NULL"
    by (simp add: real_node_def head_by_family_def)
  from assms(1) have "node_inv AF_INET (head_ipv4 radix)" by (simp add: tree_inv_def)
  from node_inv_store [OF this nn, of d] nodes_store [OF nn, of d] assms(1) AF_INET
  show ?thesis by (simp add: store_data_def tree_inv_def total_nodes_def)
next
  case AF_INET6
  with assms(2) have nn: "node_at (head_ipv6 radix) np \<noteq> NULL"
    by (simp add: real_node_def head_by_family_def)
  from assms(1) have "node_inv AF_INET6 (head_ipv6 radix)" by (simp add: tree_inv_def)
  from node_inv_store [OF this nn, of d] nodes_store [OF nn, of d] assms(1) AF_INET6
  show ?thesis by (simp add: store_data_def tree_inv_def total_nodes_def)
qed

lemma reachable_inv:
  "reachable radix \<Longrightarrow> tree_inv radix \<and> num_active_node radix = int (total_nodes radix)"
proof (induction rule: reachable.induct)
  case new
  show ?case by (simp add: New_Radix_def tree_inv_def total_nodes_def)
next
  case (insert radix p avail radix' np)
  from radix_lookup_ok [of radix p avail] insert show ?case by auto
next
  case (remove radix fam np radix')
  from radix_remove_ok [of radix fam np] remove show ?case by (auto simp: real_node_def)
next
  case (data radix fam np d)
  with store_data_ok [of radix fam np d] show ?case by simp
qed

lemma descended_to_stored:
  assumes "node_inv fam head" "descended head (add p) (bitlen p) m stop" "bitlen p \<le> m"
    "node_at head q \<noteq> NULL" "n_prefix (node_at head q) = Some s"
    "n_bit (node_at head q) = bitlen p" "agree (add s) (add p) (bitlen p)"
  shows "stop = q"
  using assms(1,2,4,5,6)
proof (induction q arbitrary: head stop)
  case Nil
  then obtain b hq dt l r where h: "head = Node b hq dt l r" by (cases head) auto
  with Nil show ?case by (cases stop) auto
next
  case (Cons dir qs)
  from Cons.prems(3) obtain b hq dt l r where h: "head = Node b hq dt l r" by (cases head) auto
  define c where "c = (if dir then r else l)"
  note iv = invD [OF Cons.prems(1) [unfolded h]]
  have ic: "node_inv fam c" using iv(7,8) by (simp add: c_def)
  have Nc: "node_at c qs \<noteq> NULL" "n_prefix (node_at c qs) = Some s" "n_bit (node_at c qs) = bitlen p"
    using Cons.prems(3,4,5) h by (simp_all add: c_def)
  then have cnn: "c \<noteq> NULL" by (auto simp: node_at_NULL)
  have "s \<in> pset (node_at c qs)" using Nc(1,2) by (cases "node_at c qs") auto
  then have sc: "s \<in> pset c" using pset_node_at by blast
  have sdir: "abit (add s) b = dir" using iv(2,3) sc by (auto simp: c_def split: if_splits)
  have "b < n_bit c" using iv(5,6) cnn by (auto simp: c_def)
  moreover have "n_bit c \<le> n_bit (node_at c qs)"
    using node_at_bit_mono [OF ic, of "[]" qs] Nc(1) by simp
  ultimately have bl: "b < bitlen p" using Nc(3) by simp
  from agree_abit [OF assms(7) bl] sdir have pdir: "abit (add p) b = dir" by simp
  from bl assms(3) have bm: "b < m" by simp
  show ?case
  proof (cases stop)
    case Nil
    with Cons.prems(2) h bl bm pdir cnn show ?thesis by (auto simp: c_def)
  next
    case (Cons d' rest)
    with Cons.prems(2) h bm pdir have d': "d' = dir" and dr: "descended c (add p) (bitlen p) m rest"
      by (auto simp: c_def)
    from Cons.IH [OF ic dr Nc] d' Cons show ?thesis by simp
  qed
qed

lemma stored_lookup:
  assumes ti: "tree_inv radix" and vp: "valid_prefix p"
    and nn: "node_at (head_by_family radix (family p)) q \<noteq> NULL"
    and ps: "n_prefix (node_at (head_by_family radix (family p)) q) = Some s"
    and nb: "n_bit (node_at (head_by_family radix (family p)) q) = bitlen p"
    and ag: "agree (add s) (add p) (bitlen p)"
  shows "radix_lookup avail radix p = Inr (radix, Some q)"
proof -
  define head where "head = RADIX_HEAD_BY_PREFIX radix p"
  define m where "m = RADIX_MAXBITS_BY_PREFIX p"
  have hd: "RADIX_HEAD_BY_PREFIX radix p = head" by (simp add: head_def)
  have md: "RADIX_MAXBITS_BY_PREFIX p = m" by (simp add: m_def)
  have hf: "head_by_family radix (family p) = head" by (simp add: head_def head_by_prefix)
  have iv: "node_inv (family p) head" using tree_inv_head [OF ti] hf by metis
  have lenp: "length (add p) * 8 = m" using valid_prefix_len [OF vp] md by simp
  have blm: "bitlen p \<le> m" using vp md by (simp add: valid_prefix_def)
  have N: "node_at head q \<noteq> NULL" "n_prefix (node_at head q) = Some s"
    "n_bit (node_at head q) = bitlen p" using nn ps nb hf by simp_all
  then have hnn: "head \<noteq> NULL" by (auto simp: node_at_NULL)
  from lookup_descend_descended [OF iv hnn lenp, of "bitlen p"] obtain stop where
    ld: "lookup_descend head (add p) (bitlen p) m = Inr stop"
    and ds: "descended head (add p) (bitlen p) m stop" by blast
  from descended_to_stored [OF iv ds blm N ag] have st: "stop = q" .
  have sN: "s \<in> pset (node_at head q)" using N(1,2) by (cases "node_at head q") auto
  from inv_family [OF inv_node_at [OF iv] sN] have sv: "family s = family p" "valid_prefix s"
    by simp_all
  have lens: "length (add s) * 8 = m"
    using valid_prefix_len [OF sv(2)] same_family_maxbits [OF sv(1)] md by simp
  have "bitlen p \<le> 8 * length (add p)" "bitlen p \<le> 8 * length (add s)"
    using blm lenp lens by simp_all
  from differ_bit_of_spec [OF this] obtain d where
    db: "differ_bit_of (add p) (add s) (bitlen p) = Inr d" and dc: "d \<le> bitlen p"
    and ddf: "d < bitlen p \<longrightarrow> abit (add p) d \<noteq> abit (add s) d" by blast
  have d: "d = bitlen p"
  proof (rule ccontr)
    assume "d \<noteq> bitlen p"
    with dc have "d < bitlen p" by simp
    with ddf agree_abit [OF ag this] show False by simp
  qed
  have wu: "walk_up head q (bitlen p) = q"
  proof (rule walk_up_stop)
    show "\<not> (q \<noteq> [] \<and> bitlen p \<le> n_bit (node_at head (butlast q)))"
      using parent_bit [OF iv N(1)] N(3) by auto
  qed
  obtain b dt l r where Nq: "node_at head q = Node b (Some s) dt l r"
    using N(1,2) by (cases "node_at head q") auto
  with N(3) have bq: "b = bitlen p" by simp
  have eq: "radix_lookup avail radix p
        = lookup_attach avail radix p (add s) (bitlen p) q"
    using hnn db
    by (simp add: radix_lookup_def Let_def hd md ld st N d wu split del: if_split)
  from attach_exact_real [of radix p q b s dt l r "bitlen p" avail "add s"] Nq bq
  have "lookup_attach avail radix p (add s) (bitlen p) q = Inr (radix, Some q)"
    by (simp add: hd)
  with eq show ?thesis by simp
qed

section \<open>Claims on the trees built by inserts and deletes\<close>

definition net_host :: prefix_t where
  "net_host = ip4 1 2 3 4 32"

text \<open>The tree after the inserts of 0.0.0.0/1 and 128.0.0.0/1, before any object is hung.\<close>

definition tree_low :: radix_tree_t where
  "tree_low =
     \<lparr>head_ipv4 = Node 1 (Some net_0_1) None NULL NULL,
      head_ipv6 = NULL, num_active_node = 1\<rparr>"

definition tree_pair :: radix_tree_t where
  "tree_pair =
     \<lparr>head_ipv4 =
        Node 0 None None
          (Node 1 (Some net_0_1) None NULL NULL)
          (Node 1 (Some net_128_1) None NULL NULL),
      head_ipv6 = NULL, num_active_node = 3\<rparr>"

text \<open>The tree after the insert of 1.2.3.4/32.\<close>

definition tree_host :: radix_tree_t where
  "tree_host =
     \<lparr>head_ipv4 = Node 32 (Some net_host) None NULL NULL,
      head_ipv6 = NULL, num_active_node = 1\<rparr>"

text \<open>The tree after the inserts of 0.0.0.0/0 and 128.0.0.0/1.\<close>

definition tree_zero :: radix_tree_t where
  "tree_zero =
     \<lparr>head_ipv4 = Node 0 (Some net_0_0) None NULL NULL,
      head_ipv6 = NULL, num_active_node = 1\<rparr>"

definition tree_nested :: radix_tree_t where
  "tree_nested =
     \<lparr>head_ipv4 =
        Node 0 (Some net_0_0) None NULL (Node 1 (Some net_128_1) None NULL NULL),
      head_ipv6 = NULL, num_active_node = 2\<rparr>"

lemma valid_examples:
  "valid_prefix net_0_0" "valid_prefix net_0_1" "valid_prefix net_128_1" "valid_prefix net_host"
  by (simp_all add: valid_prefix_def RADIX_MAXBITS_BY_PREFIX_def ip4_def
      net_0_0_def net_0_1_def net_128_1_def net_host_def)

lemma lookup_new_low: "radix_lookup 2 New_Radix net_0_1 = Inr (tree_low, Some [])"
  by code_simp

lemma lookup_low_high: "radix_lookup 2 tree_low net_128_1 = Inr (tree_pair, Some [True])"
  by code_simp

lemma lookup_new_host: "radix_lookup 2 New_Radix net_host = Inr (tree_host, Some [])"
  by code_simp

lemma lookup_new_zero: "radix_lookup 2 New_Radix net_0_0 = Inr (tree_zero, Some [])"
  by code_simp

lemma lookup_zero_high: "radix_lookup 2 tree_zero net_128_1 = Inr (tree_nested, Some [True])"
  by code_simp

lemma reachable_zero: "reachable tree_zero"
  by (rule reachable.insert [OF reachable.new valid_examples(1) lookup_new_zero])

lemma reachable_nested: "reachable tree_nested"
  by (rule reachable.insert [OF reachable_zero valid_examples(3) lookup_zero_high])

lemma reachable_low: "reachable tree_low"
  by (rule reachable.insert [OF reachable.new valid_examples(2) lookup_new_low])

lemma reachable_pair: "reachable tree_pair"
  by (rule reachable.insert [OF reachable_low valid_examples(3) lookup_low_high])

lemma reachable_host: "reachable tree_host"
  by (rule reachable.insert [OF reachable.new valid_examples(4) lookup_new_host])

text \<open>The trees after the insert of 10.0.0.0/8 and then of 10.1.0.0/16.\<close>

definition net_10_8 :: prefix_t where
  "net_10_8 = ip4 10 0 0 0 8"

definition net_10_1_16 :: prefix_t where
  "net_10_1_16 = ip4 10 1 0 0 16"

definition tree_ten :: radix_tree_t where
  "tree_ten =
     \<lparr>head_ipv4 = Node 8 (Some net_10_8) None NULL NULL,
      head_ipv6 = NULL, num_active_node = 1\<rparr>"

definition tree_ten_sub :: radix_tree_t where
  "tree_ten_sub =
     \<lparr>head_ipv4 =
        Node 8 (Some net_10_8) None (Node 16 (Some net_10_1_16) None NULL NULL) NULL,
      head_ipv6 = NULL, num_active_node = 2\<rparr>"

text \<open>1.2.3.5/32, and the tree after its insert into the tree of 1.2.3.4/32.\<close>

definition net_host5 :: prefix_t where
  "net_host5 = ip4 1 2 3 5 32"

definition tree_host_pair :: radix_tree_t where
  "tree_host_pair =
     \<lparr>head_ipv4 =
        Node 31 None None
          (Node 32 (Some net_host) None NULL NULL)
          (Node 32 (Some net_host5) None NULL NULL),
      head_ipv6 = NULL, num_active_node = 3\<rparr>"

lemma valid_more:
  "valid_prefix net_10_8" "valid_prefix net_10_1_16" "valid_prefix net_host5"
  by (simp_all add: valid_prefix_def RADIX_MAXBITS_BY_PREFIX_def ip4_def
      net_10_8_def net_10_1_16_def net_host5_def)

lemma lookup_new_ten: "radix_lookup 2 New_Radix net_10_8 = Inr (tree_ten, Some [])"
  by code_simp

lemma lookup_ten_sub: "radix_lookup 2 tree_ten net_10_1_16 = Inr (tree_ten_sub, Some [False])"
  by code_simp

lemma lookup_host_host5: "radix_lookup 2 tree_host net_host5 = Inr (tree_host_pair, Some [True])"
  by code_simp

lemma lookup_pair_host: "radix_lookup 0 tree_host_pair net_host = Inr (tree_host_pair, Some [False])"
  by code_simp

lemma reachable_ten: "reachable tree_ten"
  by (rule reachable.insert [OF reachable.new valid_more(1) lookup_new_ten])

lemma reachable_ten_sub: "reachable tree_ten_sub"
  by (rule reachable.insert [OF reachable_ten valid_more(2) lookup_ten_sub])

lemma reachable_host_pair: "reachable tree_host_pair"
  by (rule reachable.insert [OF reachable_host valid_more(3) lookup_host_host5])

text \<open>
  Claim C3: on a tree built by inserts and deletes, a call of radix_lookup that returns
  a node is repeated by the next call with the same prefix: it returns the same node and
  the tree it leaves, heads and counter of active nodes, is the tree it was given. With two
  allocations available the first call does return a node.
\<close>

theorem C3_lookup_twice:
  assumes "reachable radix" "valid_prefix p"
  shows "(2 \<le> avail \<longrightarrow> (\<exists>radix' np. radix_lookup avail radix p = Inr (radix', Some np)))
     \<and> (\<forall>radix' np. radix_lookup avail radix p = Inr (radix', Some np)
            \<longrightarrow> radix_lookup avail' radix' p = Inr (radix', Some np))"
proof -
  from reachable_inv [OF assms(1)] have ti: "tree_inv radix" by simp
  from radix_lookup_ok [OF ti assms(2), of avail] obtain radix1 r where
    l: "radix_lookup avail radix p = Inr (radix1, r)" and ti1: "tree_inv radix1"
    and av: "2 \<le> avail \<longrightarrow> r \<noteq> None"
    and rs: "\<forall>q. r = Some q \<longrightarrow>
            node_at (head_by_family radix1 (family p)) q \<noteq> NULL
            \<and> (\<exists>s. n_prefix (node_at (head_by_family radix1 (family p)) q) = Some s
                   \<and> bitlen s = bitlen p
                   \<and> n_bit (node_at (head_by_family radix1 (family p)) q) = bitlen p
                   \<and> agree (add s) (add p) (bitlen p))"
    by blast
  have a: "2 \<le> avail \<longrightarrow> (\<exists>radix' np. radix_lookup avail radix p = Inr (radix', Some np))"
    using l av by auto
  have b: "radix_lookup avail' radix' p = Inr (radix', Some np)"
    if h: "radix_lookup avail radix p = Inr (radix', Some np)" for radix' np
  proof -
    from h l have e: "radix1 = radix'" "r = Some np" by simp_all
    with rs obtain s where
      "node_at (head_by_family radix' (family p)) np \<noteq> NULL"
      "n_prefix (node_at (head_by_family radix' (family p)) np) = Some s"
      "n_bit (node_at (head_by_family radix' (family p)) np) = bitlen p"
      "agree (add s) (add p) (bitlen p)" by blast
    from stored_lookup [OF ti1 [unfolded e] assms(2) this] show ?thesis .
  qed
  from a b show ?thesis by blast
qed

theorem C3_lookup_twice_witness:
  "reachable tree_low \<and> valid_prefix net_128_1
   \<and> radix_lookup 2 tree_low net_128_1 = Inr (tree_pair, Some [True])
   \<and> radix_lookup 0 tree_pair net_128_1 = Inr (tree_pair, Some [True])"
  using C3_lookup_twice [OF reachable_low valid_examples(3), of 2 0]
    reachable_low valid_examples(3) lookup_low_high
  by simp

text \<open>
  As long as every insert of the sequence returns a node, the counter of active nodes is
  the number of nodes, with or without a prefix, under the two heads.
\<close>

lemma active_count_reachable:
  assumes "reachable radix"
  shows "num_active_node radix = int (nodes (head_ipv4 radix) + nodes (head_ipv6 radix))"
  using reachable_inv [OF assms] by (simp add: total_nodes_def)

lemma lookup_low_high_no_glue:
  "radix_lookup 1 tree_low net_128_1 = Inr (tree_low\<lparr>num_active_node := 2\<rparr>, None)"
proof -
  have "radix_lookup 1 tree_low net_128_1
          = Inr (\<lparr>head_ipv4 = Node 1 (Some net_0_1) None NULL NULL,
                  head_ipv6 = NULL, num_active_node = 2\<rparr>, None)"
    by code_simp
  then show ?thesis by (simp add: tree_low_def)
qed

text \<open>
  Claim C8 on the code: the tree after the insert of 0.0.0.0/1 has one node and the
  counter 1. The insert of 128.0.0.0/1 into it, when the allocation of the new real node
  succeeds and the allocation of the glue node fails, returns null and leaves the one
  node under the heads, with the counter of active nodes at 2.
\<close>

theorem C8_count_after_failed_insert:
  "reachable tree_low
   \<and> num_active_node tree_low = int (nodes (head_ipv4 tree_low) + nodes (head_ipv6 tree_low))
   \<and> radix_lookup 1 tree_low net_128_1 = Inr (tree_low\<lparr>num_active_node := 2\<rparr>, None)
   \<and> num_active_node (tree_low\<lparr>num_active_node := 2\<rparr>) = 2
   \<and> nodes (head_ipv4 (tree_low\<lparr>num_active_node := 2\<rparr>))
        + nodes (head_ipv6 (tree_low\<lparr>num_active_node := 2\<rparr>)) = 1"
  using reachable_low lookup_low_high_no_glue by (simp add: tree_low_def)

text \<open>
  Claim C9: in every tree built by inserts and deletes, a node with a prefix that lies
  below a node with a prefix has the longer prefix, and the two prefixes agree on all
  the bits of the upper one, also under the comparison of the code, comp_with_mask.
\<close>

theorem C9_ancestor_contains:
  assumes "reachable radix"
    and "node_at (head_by_family radix fam) pa \<noteq> NULL"
    and "n_prefix (node_at (head_by_family radix fam) pa) = Some a"
    and "node_at (head_by_family radix fam) (pa @ ds) \<noteq> NULL"
    and "n_prefix (node_at (head_by_family radix fam) (pa @ ds)) = Some dd"
    and "ds \<noteq> []"
  shows "bitlen a < bitlen dd \<and> agree (add a) (add dd) (bitlen a)
       \<and> comp_with_mask (add a) (add dd) (bitlen a)"
proof -
  define head where "head = head_by_family radix fam"
  define A where "A = node_at head pa"
  define D where "D = node_at head (pa @ ds)"
  from reachable_inv [OF assms(1)] have iv: "node_inv fam head"
    by (simp add: head_def tree_inv_head)
  have iA: "node_inv fam A" using iv by (simp add: A_def inv_node_at)
  have Ann: "A \<noteq> NULL" and Ap: "n_prefix A = Some a" using assms(2,3) by (simp_all add: A_def head_def)
  have Dnn: "D \<noteq> NULL" and Dp: "n_prefix D = Some dd" using assms(4,5) by (simp_all add: D_def head_def)
  have DA: "D = node_at A ds" by (simp add: D_def A_def node_at_append)
  have aA: "a \<in> pset A" using Ann Ap by (cases A) auto
  have "dd \<in> pset D" using Dnn Dp by (cases D) auto
  then have dA: "dd \<in> pset A" using pset_node_at DA by blast
  obtain b dt l r where Ae: "A = Node b (Some a) dt l r" using Ann Ap by (cases A) auto
  from invD(1) [OF iA [unfolded Ae]] have ba: "bitlen a = b" and av: "valid_prefix a" and fa: "family a = fam"
    by simp_all
  have ag: "agree (add a) (add dd) (bitlen a)" using inv_agree [OF iA Ann aA dA] Ae ba by simp
  have iD: "node_inv fam D" using iv by (simp add: D_def inv_node_at)
  obtain b' dt' l' r' where De: "D = Node b' (Some dd) dt' l' r'" using Dnn Dp by (cases D) auto
  from invD(1) [OF iD [unfolded De]] have bd: "bitlen dd = b'" and dv: "valid_prefix dd" and fd: "family dd = fam"
    by simp_all
  from assms(6) have dse: "ds = butlast ds @ [last ds]" by simp
  have De': "node_at A (butlast ds @ [last ds]) = D" using DA dse by simp
  have nA: "n_bit A = bitlen a" and nD: "n_bit D = bitlen dd" using Ae De ba bd by simp_all
  have "n_bit (node_at A (butlast ds)) < n_bit D"
    using node_at_snoc_bit [OF iA, of "butlast ds" "last ds"] Dnn De' by simp
  moreover have "n_bit A \<le> n_bit (node_at A (butlast ds))"
  proof -
    have "node_at A (butlast ds) \<noteq> NULL"
      using Dnn De' by (metis node_at_append node_at_NULL)
    from node_at_bit_mono [OF iA, of "[]" "butlast ds"] this show ?thesis by simp
  qed
  ultimately have lt: "bitlen a < bitlen dd" using nA nD by simp
  have "RADIX_MAXBITS_BY_PREFIX dd = RADIX_MAXBITS_BY_PREFIX a"
    using fa fd by (simp add: same_family_maxbits)
  with valid_prefix_len [OF av] valid_prefix_len [OF dv] av
  have "bitlen a \<le> 8 * length (add a)" "bitlen a \<le> 8 * length (add dd)"
    by (simp_all add: valid_prefix_def)
  from comp_with_mask_agree [OF this] ag lt show ?thesis by simp
qed

theorem C9_ancestor_contains_witness:
  "reachable tree_ten_sub
   \<and> node_at (head_by_family tree_ten_sub AF_INET) [] \<noteq> NULL
   \<and> n_prefix (node_at (head_by_family tree_ten_sub AF_INET) []) = Some net_10_8
   \<and> node_at (head_by_family tree_ten_sub AF_INET) ([] @ [False]) \<noteq> NULL
   \<and> n_prefix (node_at (head_by_family tree_ten_sub AF_INET) ([] @ [False])) = Some net_10_1_16
   \<and> bitlen net_10_8 = 8
   \<and> bitlen net_10_8 < bitlen net_10_1_16
   \<and> agree (add net_10_8) (add net_10_1_16) (bitlen net_10_8)
   \<and> comp_with_mask (add net_10_8) (add net_10_1_16) (bitlen net_10_8)"
proof -
  have a: "node_at (head_by_family tree_ten_sub AF_INET) [] \<noteq> NULL"
    "n_prefix (node_at (head_by_family tree_ten_sub AF_INET) []) = Some net_10_8"
    "node_at (head_by_family tree_ten_sub AF_INET) ([] @ [False]) \<noteq> NULL"
    "n_prefix (node_at (head_by_family tree_ten_sub AF_INET) ([] @ [False])) = Some net_10_1_16"
    by (simp_all add: tree_ten_sub_def head_by_family_def)
  have n: "[False] \<noteq> []" by simp
  have b: "bitlen net_10_8 = 8" by (simp add: net_10_8_def ip4_sel)
  from C9_ancestor_contains [OF reachable_ten_sub a n] reachable_ten_sub a b
  show ?thesis by simp
qed

lemma bit_test_out_of_range:
  "valid_prefix p \<Longrightarrow>
   (BIT_TEST_SEARCH_BIT (add p) b = None) = (RADIX_MAXBITS_BY_PREFIX p \<le> b)"
  using maxbits_cases [of p]
  by (auto simp: BIT_TEST_SEARCH_BIT_None valid_prefix_def)

text \<open>
  Claim C10: on a tree built by inserts and deletes and a prefix of its family,
  radix_lookup never reads outside the address bytes, whatever the allocator does: every
  bit test it makes is on an index below the width of the family, and so is every byte it
  compares. The call returns, with a node or with null. For a prefix of its family a bit
  test is outside the address exactly when its index is the width or more.
\<close>

theorem C10_lookup_in_range:
  assumes "reachable radix" "valid_prefix p"
  shows "radix_lookup avail radix p \<noteq> Inl OutOfRange
       \<and> (\<exists>radix' r. radix_lookup avail radix p = Inr (radix', r))
       \<and> (\<forall>b. (BIT_TEST_SEARCH_BIT (add p) b = None) = (RADIX_MAXBITS_BY_PREFIX p \<le> b))"
proof -
  from reachable_inv [OF assms(1)] have ti: "tree_inv radix" by simp
  from radix_lookup_ok [OF ti assms(2), of avail] obtain radix' r where
    "radix_lookup avail radix p = Inr (radix', r)" by blast
  with bit_test_out_of_range [OF assms(2)] show ?thesis by simp
qed

theorem C10_lookup_in_range_witness:
  "reachable tree_host \<and> valid_prefix net_host5
   \<and> radix_lookup 2 tree_host net_host5 = Inr (tree_host_pair, Some [True])
   \<and> radix_lookup 2 tree_host net_host5 \<noteq> Inl OutOfRange
   \<and> BIT_TEST_SEARCH_BIT (add net_host5) 31 \<noteq> None
   \<and> BIT_TEST_SEARCH_BIT (add net_host5) 32 = None
   \<and> reachable tree_host_pair \<and> valid_prefix net_host
   \<and> radix_lookup 0 tree_host_pair net_host = Inr (tree_host_pair, Some [False])
   \<and> radix_lookup 0 tree_host_pair net_host \<noteq> Inl OutOfRange"
proof -
  have m: "RADIX_MAXBITS_BY_PREFIX net_host5 = 32"
    by (simp add: RADIX_MAXBITS_BY_PREFIX_def RADIX_MAXBITS_def net_host5_def ip4_sel)
  note one = C10_lookup_in_range [OF reachable_host valid_more(3), where avail = 2]
  note two = C10_lookup_in_range [OF reachable_host_pair valid_examples(4), where avail = 0]
  from one have r1: "radix_lookup 2 tree_host net_host5 \<noteq> Inl OutOfRange"
    and t31: "(BIT_TEST_SEARCH_BIT (add net_host5) 31 = None) = (RADIX_MAXBITS_BY_PREFIX net_host5 \<le> 31)"
    and t32: "(BIT_TEST_SEARCH_BIT (add net_host5) 32 = None) = (RADIX_MAXBITS_BY_PREFIX net_host5 \<le> 32)"
    by blast+
  from two have r2: "radix_lookup 0 tree_host_pair net_host \<noteq> Inl OutOfRange" by blast
  from t31 t32 m have b: "BIT_TEST_SEARCH_BIT (add net_host5) 31 \<noteq> None"
    "BIT_TEST_SEARCH_BIT (add net_host5) 32 = None" by simp_all
  from r1 r2 b reachable_host reachable_host_pair valid_more(3) valid_examples(4)
    lookup_host_host5 lookup_pair_host
  show ?thesis by blast
qed

section \<open>Best match, and the covering and covered walks\<close>

text \<open>The first \<open>bitlen s\<close> bits of two addresses of one family: \<open>s\<close> is no longer than
  \<open>q\<close> and agrees with it on all its bits.\<close>

definition bits_contain :: "prefix_t \<Rightarrow> prefix_t \<Rightarrow> bool" where
  "bits_contain s q = (bitlen s \<le> bitlen q \<and> agree (add s) (add q) (bitlen s))"

lemma pset_iff_node:
  "s \<in> pset n \<longleftrightarrow> (\<exists>np. node_at n np \<noteq> NULL \<and> n_prefix (node_at n np) = Some s)"
proof
  assume "s \<in> pset n"
  then show "\<exists>np. node_at n np \<noteq> NULL \<and> n_prefix (node_at n np) = Some s"
  proof (induction n)
    case NULL
    then show ?case by simp
  next
    case (Node b p dt l r)
    from Node.prems consider "p = Some s" | "s \<in> pset l" | "s \<in> pset r" by auto
    then show ?case
    proof cases
      case 1
      then have "node_at (Node b p dt l r) [] \<noteq> NULL \<and> n_prefix (node_at (Node b p dt l r) []) = Some s"
        by simp
      then show ?thesis by blast
    next
      case 2
      with Node.IH(1) obtain np where "node_at l np \<noteq> NULL \<and> n_prefix (node_at l np) = Some s" by blast
      then have "node_at (Node b p dt l r) (False # np) \<noteq> NULL
          \<and> n_prefix (node_at (Node b p dt l r) (False # np)) = Some s" by simp
      then show ?thesis by blast
    next
      case 3
      with Node.IH(2) obtain np where "node_at r np \<noteq> NULL \<and> n_prefix (node_at r np) = Some s" by blast
      then have "node_at (Node b p dt l r) (True # np) \<noteq> NULL
          \<and> n_prefix (node_at (Node b p dt l r) (True # np)) = Some s" by simp
      then show ?thesis by blast
    qed
  qed
next
  assume "\<exists>np. node_at n np \<noteq> NULL \<and> n_prefix (node_at n np) = Some s"
  then obtain np where a: "node_at n np \<noteq> NULL" "n_prefix (node_at n np) = Some s" by blast
  then have "s \<in> pset (node_at n np)" by (cases "node_at n np") auto
  then show "s \<in> pset n" using pset_node_at by blast
qed

lemma search_test_in_range:
  "length a * 8 = m \<Longrightarrow> b < m \<Longrightarrow> BIT_TEST_SEARCH oob a b = abit a b"
  by (simp add: BIT_TEST_SEARCH_def test_in_range)

lemma visited_not_NULL:
  "np \<in> set (RADIX_SEARCH_FOREACH_INCLUSIVE oob n q)
   \<Longrightarrow> node_at n np \<noteq> NULL \<and> n_bit (node_at n np) \<le> bitlen q"
  by (induction oob n q arbitrary: np rule: RADIX_SEARCH_FOREACH_INCLUSIVE.induct)
    (auto split: if_splits)

lemma visited_sorted:
  assumes "node_inv fam n"
  shows "sorted_wrt (\<lambda>a b. n_bit (node_at n a) < n_bit (node_at n b))
           (RADIX_SEARCH_FOREACH_INCLUSIVE oob n q)"
  using assms
proof (induction n)
  case NULL
  then show ?case by simp
next
  case (Node b p dt l r)
  note iv = invD [OF Node.prems]
  define dir where "dir = BIT_TEST_SEARCH oob (add q) b"
  define c where "c = (if dir then r else l)"
  have ic: "node_inv fam c" using iv(7,8) by (simp add: c_def)
  have sc: "sorted_wrt (\<lambda>a b. n_bit (node_at c a) < n_bit (node_at c b))
           (RADIX_SEARCH_FOREACH_INCLUSIVE oob c q)"
    using Node.IH ic by (auto simp: c_def)
  have v: "RADIX_SEARCH_FOREACH_INCLUSIVE oob (Node b p dt l r) q =
      (if b \<le> bitlen q then [] # map (Cons dir) (RADIX_SEARCH_FOREACH_INCLUSIVE oob c q) else [])"
    by (simp add: dir_def c_def)
  have first: "\<forall>a \<in> set (RADIX_SEARCH_FOREACH_INCLUSIVE oob c q). b < n_bit (node_at c a)"
  proof
    fix a assume "a \<in> set (RADIX_SEARCH_FOREACH_INCLUSIVE oob c q)"
    from visited_not_NULL [OF this] have nn: "node_at c a \<noteq> NULL" by simp
    then have "c \<noteq> NULL" by (auto simp: node_at_NULL)
    then have "b < n_bit c" using iv(5,6) by (auto simp: c_def)
    with node_at_bit_mono [OF ic, of "[]" a] nn show "b < n_bit (node_at c a)" by simp
  qed
  have nd: "node_at (Node b p dt l r) (dir # a) = node_at c a" for a by (simp add: c_def)
  show ?case
  proof (cases dir)
    case True
    with sc first show ?thesis unfolding v by (simp add: sorted_wrt_map c_def)
  next
    case False
    with sc first show ?thesis unfolding v by (simp add: sorted_wrt_map c_def)
  qed
qed

lemma visited_complete:
  assumes "node_inv fam n" "node_at n np \<noteq> NULL" "n_prefix (node_at n np) = Some s"
    "bits_contain s q" "length (add q) * 8 = m" "bitlen q \<le> m"
  shows "np \<in> set (RADIX_SEARCH_FOREACH_INCLUSIVE oob n q)"
  using assms(1,2,3)
proof (induction np arbitrary: n)
  case Nil
  then obtain b p dt l r where n: "n = Node b p dt l r" by (cases n) auto
  with Nil have "p = Some s" by simp
  with invD(1) [OF Nil.prems(1) [unfolded n]] have "bitlen s = b" by simp
  with assms(4) n show ?case by (simp add: bits_contain_def)
next
  case (Cons dir ds)
  from Cons.prems(2) obtain b p dt l r where n: "n = Node b p dt l r" by (cases n) auto
  define c where "c = (if dir then r else l)"
  note iv = invD [OF Cons.prems(1) [unfolded n]]
  have ic: "node_inv fam c" using iv(7,8) by (simp add: c_def)
  have Nc: "node_at c ds \<noteq> NULL" "n_prefix (node_at c ds) = Some s"
    using Cons.prems(2,3) n by (simp_all add: c_def)
  then have cnn: "c \<noteq> NULL" by (auto simp: node_at_NULL)
  have sN: "s \<in> pset (node_at c ds)" using Nc by (cases "node_at c ds") auto
  then have sc: "s \<in> pset c" using pset_node_at by blast
  have sdir: "abit (add s) b = dir" using iv(2,3) sc by (auto simp: c_def split: if_splits)
  have "b < n_bit c" using iv(5,6) cnn by (auto simp: c_def)
  moreover have "n_bit c \<le> bitlen s" by (rule inv_bit_le [OF ic cnn sc])
  ultimately have bs: "b < bitlen s" by simp
  with assms(4) have bq: "b < bitlen q" by (simp add: bits_contain_def)
  from assms(4) have "agree (add s) (add q) (bitlen s)" by (simp add: bits_contain_def)
  from agree_abit [OF this bs] sdir have qdir: "abit (add q) b = dir" by simp
  have "BIT_TEST_SEARCH oob (add q) b = dir"
    using search_test_in_range [OF assms(5), of b oob] bq assms(6) qdir by simp
  moreover from Cons.IH [OF ic Nc] have "ds \<in> set (RADIX_SEARCH_FOREACH_INCLUSIVE oob c q)" .
  ultimately show ?case using n bq by (auto simp: c_def)
qed

lemma find_app:
  "find P (xs @ ys) = (case find P xs of None \<Rightarrow> find P ys | Some x \<Rightarrow> Some x)"
  by (induction xs) auto

lemma find_rev_last:
  assumes "sorted_wrt R xs" "find P (rev xs) = Some x"
  shows "x \<in> set xs \<and> P x \<and> (\<forall>y \<in> set xs. P y \<longrightarrow> y = x \<or> R y x)"
  using assms
proof (induction xs)
  case Nil
  then show ?case by simp
next
  case (Cons a xs)
  show ?case
  proof (cases "find P (rev xs)")
    case None
    with Cons.prems(2) have ax: "P a" "x = a" by (auto simp: find_app split: if_splits)
    from None have "\<forall>y \<in> set xs. \<not> P y" by (auto simp: find_None_iff)
    with ax show ?thesis by auto
  next
    case (Some z)
    with Cons.prems(2) have "z = x" by (simp add: find_app)
    with Some Cons.IH Cons.prems(1) have
      ih: "x \<in> set xs" "P x" "\<forall>y \<in> set xs. P y \<longrightarrow> y = x \<or> R y x" by auto
    from Cons.prems(1) ih(1) have "R a x" by auto
    with ih show ?thesis by auto
  qed
qed

lemma real_node_prefix:
  assumes "node_inv fam head" "node_at head np \<noteq> NULL" "n_prefix (node_at head np) = Some s"
  shows "family s = fam" "valid_prefix s" "n_bit (node_at head np) = bitlen s" "s \<in> pset head"
proof -
  obtain b dt l r where N: "node_at head np = Node b (Some s) dt l r"
    using assms(2,3) by (cases "node_at head np") auto
  from invD(1) [OF inv_node_at [OF assms(1), of np, unfolded N]]
  show "family s = fam" "valid_prefix s" "n_bit (node_at head np) = bitlen s"
    using N by simp_all
  show "s \<in> pset head" using pset_iff_node assms(2,3) by blast
qed

lemma comp_stored_query:
  assumes "valid_prefix s" "valid_prefix q" "family s = family q" "k \<le> bitlen s \<or> k \<le> bitlen q"
  shows "comp_with_mask (add s) (add q) k = agree (add s) (add q) k"
proof -
  have m: "RADIX_MAXBITS_BY_PREFIX s = RADIX_MAXBITS_BY_PREFIX q"
    using assms(3) by (rule same_family_maxbits)
  from assms(4) assms(1,2) m have "k \<le> RADIX_MAXBITS_BY_PREFIX q"
    by (auto simp: valid_prefix_def)
  with valid_prefix_len [OF assms(1)] valid_prefix_len [OF assms(2)] m
  have "k \<le> 8 * length (add s)" "k \<le> 8 * length (add q)" by simp_all
  then show ?thesis by (rule comp_with_mask_agree)
qed

lemma best_accepts_contains:
  assumes "node_inv (family q) head" "valid_prefix q"
    "node_at head np \<noteq> NULL" "n_prefix (node_at head np) = Some s"
  shows "best_accepts head q np = bits_contain s q"
proof -
  note rp = real_node_prefix [OF assms(1,3,4)]
  obtain b dt l r where N: "node_at head np = Node b (Some s) dt l r"
    using assms(3,4) by (cases "node_at head np") auto
  have "comp_with_mask (add s) (add q) (bitlen s) = agree (add s) (add q) (bitlen s)"
    using comp_stored_query [OF rp(2) assms(2) rp(1), of "bitlen s"] by simp
  then show ?thesis by (auto simp: best_accepts_def N bits_contain_def)
qed

lemma best_pushed_real:
  assumes "node_inv (family q) head"
    "node_at head np \<noteq> NULL" "n_prefix (node_at head np) = Some s"
  shows "best_pushed head q inclusive np = (inclusive \<or> bitlen s \<noteq> bitlen q)"
proof -
  note rp = real_node_prefix [OF assms]
  obtain b dt l r where N: "node_at head np = Node b (Some s) dt l r"
    using assms(2,3) by (cases "node_at head np") auto
  with rp(3) show ?thesis by (simp add: best_pushed_def)
qed

lemma best_pushed_node:
  "best_pushed head q inclusive np
   \<Longrightarrow> node_at head np \<noteq> NULL \<and> (\<exists>s. n_prefix (node_at head np) = Some s)"
  by (auto simp: best_pushed_def split: radix_node_t.splits)

lemma search_best2_spec:
  assumes "reachable radix" "valid_prefix q"
  shows "case radix_search_best2 oob radix q inclusive of
      None \<Rightarrow> \<not> (\<exists>s \<in> pset (RADIX_HEAD_BY_PREFIX radix q).
                  bits_contain s q \<and> (inclusive \<or> bitlen s \<noteq> bitlen q))
    | Some np \<Rightarrow>
        node_at (RADIX_HEAD_BY_PREFIX radix q) np \<noteq> NULL \<and>
        (\<exists>s. n_prefix (node_at (RADIX_HEAD_BY_PREFIX radix q) np) = Some s
           \<and> bits_contain s q \<and> (inclusive \<or> bitlen s \<noteq> bitlen q)
           \<and> (\<forall>s' \<in> pset (RADIX_HEAD_BY_PREFIX radix q).
                 bits_contain s' q \<and> (inclusive \<or> bitlen s' \<noteq> bitlen q)
                 \<longrightarrow> bitlen s' \<le> bitlen s))"
proof -
  define head where "head = RADIX_HEAD_BY_PREFIX radix q"
  define m where "m = RADIX_MAXBITS_BY_PREFIX q"
  define vis where "vis = RADIX_SEARCH_FOREACH_INCLUSIVE oob head q"
  define stack where "stack = filter (best_pushed head q inclusive) vis"
  let ?R = "\<lambda>a b. n_bit (node_at head a) < n_bit (node_at head b)"
  from reachable_inv [OF assms(1)] have iv: "node_inv (family q) head"
    by (simp add: head_def head_by_prefix tree_inv_head)
  have lenq: "length (add q) * 8 = m" using valid_prefix_len [OF assms(2)] by (simp add: m_def)
  have blm: "bitlen q \<le> m" using assms(2) by (simp add: valid_prefix_def m_def)
  have res: "radix_search_best2 oob radix q inclusive
      = (if head = NULL then None else find (best_accepts head q) (rev stack))"
    by (simp add: radix_search_best2_def Let_def head_def stack_def vis_def)
  have srt: "sorted_wrt ?R stack"
    unfolding stack_def vis_def by (intro sorted_wrt_filter visited_sorted [OF iv])
  have cand_in: "np \<in> set stack \<and> best_accepts head q np"
    if "node_at head np \<noteq> NULL" "n_prefix (node_at head np) = Some s"
      "bits_contain s q" "inclusive \<or> bitlen s \<noteq> bitlen q" for np s
  proof -
    from visited_complete [OF iv that(1,2,3) lenq blm] have "np \<in> set vis" by (simp add: vis_def)
    moreover have "best_pushed head q inclusive np"
      using best_pushed_real [OF iv that(1,2)] that(4) by simp
    ultimately have "np \<in> set stack" by (simp add: stack_def)
    moreover have "best_accepts head q np"
      using best_accepts_contains [OF iv assms(2) that(1,2)] that(3) by simp
    ultimately show ?thesis by simp
  qed
  show ?thesis
  proof (cases "radix_search_best2 oob radix q inclusive")
    case None
    have "\<not> (\<exists>s \<in> pset head. bits_contain s q \<and> (inclusive \<or> bitlen s \<noteq> bitlen q))"
    proof
      assume "\<exists>s \<in> pset head. bits_contain s q \<and> (inclusive \<or> bitlen s \<noteq> bitlen q)"
      then obtain s where s: "s \<in> pset head" "bits_contain s q" "inclusive \<or> bitlen s \<noteq> bitlen q"
        by blast
      then have hnn: "head \<noteq> NULL" by auto
      from s(1) obtain np where "node_at head np \<noteq> NULL" "n_prefix (node_at head np) = Some s"
        using pset_iff_node by blast
      from cand_in [OF this s(2,3)] have "\<exists>x \<in> set (rev stack). best_accepts head q x" by auto
      then have "find (best_accepts head q) (rev stack) \<noteq> None" by (auto simp: find_None_iff)
      with None res hnn show False by simp
    qed
    with None show ?thesis by (simp add: head_def)
  next
    case (Some np)
    with res have f: "find (best_accepts head q) (rev stack) = Some np"
      by (simp split: if_splits)
    from find_rev_last [OF srt f] have
      in_st: "np \<in> set stack" and acc: "best_accepts head q np"
      and last: "\<forall>y \<in> set stack. best_accepts head q y \<longrightarrow> y = np \<or> ?R y np" by auto
    from in_st have pu: "best_pushed head q inclusive np" by (simp add: stack_def)
    from best_pushed_node [OF pu] obtain s where
      nn: "node_at head np \<noteq> NULL" and ps: "n_prefix (node_at head np) = Some s" by blast
    have cs: "bits_contain s q" using best_accepts_contains [OF iv assms(2) nn ps] acc by simp
    have ne: "inclusive \<or> bitlen s \<noteq> bitlen q" using best_pushed_real [OF iv nn ps] pu by simp
    have mx: "\<forall>s' \<in> pset head. bits_contain s' q \<and> (inclusive \<or> bitlen s' \<noteq> bitlen q)
                 \<longrightarrow> bitlen s' \<le> bitlen s"
    proof (intro ballI impI)
      fix s' assume s': "s' \<in> pset head" and c: "bits_contain s' q \<and> (inclusive \<or> bitlen s' \<noteq> bitlen q)"
      from s' obtain np' where n': "node_at head np' \<noteq> NULL" "n_prefix (node_at head np') = Some s'"
        using pset_iff_node by blast
      from cand_in [OF n'] c have "np' \<in> set stack" "best_accepts head q np'" by simp_all
      with last have "np' = np \<or> ?R np' np" by blast
      moreover have "n_bit (node_at head np') = bitlen s'" "n_bit (node_at head np) = bitlen s"
        using real_node_prefix(3) [OF iv n'] real_node_prefix(3) [OF iv nn ps] by simp_all
      ultimately show "bitlen s' \<le> bitlen s" by auto
    qed
    from nn ps cs ne mx Some show ?thesis by (simp add: head_def)
  qed
qed

lemma ancestor_path:
  assumes "node_inv fam head"
    "node_at head npP \<noteq> NULL" "n_prefix (node_at head npP) = Some P"
    "node_at head npQ \<noteq> NULL" "n_prefix (node_at head npQ) = Some Q"
    "bits_contain Q P"
  shows "\<exists>ds. npP = npQ @ ds"
  using assms(1-5)
proof (induction npQ arbitrary: head npP)
  case Nil
  then show ?case by simp
next
  case (Cons dir qs)
  from Cons.prems(4) obtain b p dt l r where h: "head = Node b p dt l r" by (cases head) auto
  note iv = invD [OF Cons.prems(1) [unfolded h]]
  define c where "c = (if dir then r else l)"
  have ic: "node_inv fam c" using iv(7,8) by (simp add: c_def)
  have Qc: "node_at c qs \<noteq> NULL" "n_prefix (node_at c qs) = Some Q"
    using Cons.prems(4,5) h by (simp_all add: c_def)
  then have cnn: "c \<noteq> NULL" by (auto simp: node_at_NULL)
  have "Q \<in> pset c" using Qc pset_iff_node by blast
  then have Qdir: "abit (add Q) b = dir" and bQ: "b < bitlen Q"
    using iv(2,3,5,6) inv_bit_le [OF ic cnn, of Q] cnn by (auto simp: c_def split: if_splits)
  from assms(6) have le: "bitlen Q \<le> bitlen P" and ag: "agree (add Q) (add P) (bitlen Q)"
    by (simp_all add: bits_contain_def)
  show ?case
  proof (cases npP)
    case Nil
    with Cons.prems(2,3) h have "p = Some P" by simp
    with iv(1) have "bitlen P = b" by simp
    with bQ le show ?thesis by simp
  next
    case (Cons dir' ps)
    define c' where "c' = (if dir' then r else l)"
    have Pc: "node_at c' ps \<noteq> NULL" "n_prefix (node_at c' ps) = Some P"
      using Cons.prems(2,3) h Cons by (simp_all add: c'_def)
    then have "P \<in> pset c'" using pset_iff_node by blast
    then have "abit (add P) b = dir'" using iv(2,3) by (auto simp: c'_def split: if_splits)
    with agree_abit [OF ag bQ] Qdir have dd: "dir' = dir" by simp
    then have "c' = c" by (simp add: c_def c'_def)
    with Cons.IH [OF ic _ _ Qc] Pc obtain ds where "ps = qs @ ds" by blast
    with Cons dd show ?thesis by simp
  qed
qed

lemma bits_contain_refl: "bits_contain s s"
  by (simp add: bits_contain_def agree_refl)

lemma search_best_stored:
  assumes "reachable radix"
    "node_at (RADIX_HEAD_BY_PREFIX radix P) npP \<noteq> NULL"
    "n_prefix (node_at (RADIX_HEAD_BY_PREFIX radix P) npP) = Some P"
  shows "radix_search_best oob radix P = Some npP"
proof -
  define head where "head = RADIX_HEAD_BY_PREFIX radix P"
  from reachable_inv [OF assms(1)] have iv: "node_inv (family P) head"
    by (simp add: head_def head_by_prefix tree_inv_head)
  have N: "node_at head npP \<noteq> NULL" "n_prefix (node_at head npP) = Some P"
    using assms(2,3) by (simp_all add: head_def)
  note rp = real_node_prefix [OF iv N]
  from search_best2_spec [OF assms(1) rp(2), where oob = oob and inclusive = True]
    rp(4) bits_contain_refl [of P]
  obtain np s where r: "radix_search_best2 oob radix P True = Some np"
    and nn: "node_at head np \<noteq> NULL" and ps: "n_prefix (node_at head np) = Some s"
    and cs: "bits_contain s P" and mx: "bitlen P \<le> bitlen s"
    by (cases "radix_search_best2 oob radix P True") (auto simp: head_def)
  from cs mx have cP: "bits_contain P s" by (auto simp: bits_contain_def intro: agree_sym)
  from ancestor_path [OF iv N nn ps cs] ancestor_path [OF iv nn ps N cP]
  have "np = npP" by auto
  with r show ?thesis by (simp add: radix_search_best_def)
qed

definition is_real :: "radix_node_t \<Rightarrow> node_ptr \<Rightarrow> bool" where
  "is_real head np = (node_at head np \<noteq> NULL \<and> n_prefix (node_at head np) \<noteq> None)"

lemma covering_walk_count:
  assumes "\<forall>np. func np = 0"
  shows "fst (covering_walk head func np) = 0 \<and>
     count_list (snd (covering_walk head func np)) x
       = (if (\<exists>ds. np = x @ ds) \<and> is_real head x then 1 else 0)"
  using assms
proof (induction head func np rule: covering_walk.induct)
  case (1 head func np)
  have f0: "func np = 0" using "1.prems" by simp
  show ?case
  proof (cases "np = []")
    case True
    then show ?thesis
      using f0 by (subst (1 2) covering_walk.simps) (auto simp: is_real_def)
  next
    case False
    have up: "(\<exists>ds. np = x @ ds) \<longleftrightarrow> x = np \<or> (\<exists>ds. butlast np = x @ ds)"
    proof
      assume "\<exists>ds. np = x @ ds"
      then obtain ds where e: "np = x @ ds" by blast
      show "x = np \<or> (\<exists>ds. butlast np = x @ ds)"
      proof (cases "ds = []")
        case True
        with e show ?thesis by simp
      next
        case False
        with e have "butlast np = x @ butlast ds" by (simp add: butlast_append)
        then show ?thesis by blast
      qed
    next
      assume "x = np \<or> (\<exists>ds. butlast np = x @ ds)"
      then show "\<exists>ds. np = x @ ds"
      proof
        assume "x = np"
        then show ?thesis by simp
      next
        assume "\<exists>ds. butlast np = x @ ds"
        then obtain ds where "butlast np = x @ ds" by blast
        with False have "np = x @ (ds @ [last np])" by (metis append.assoc append_butlast_last_id)
        then show ?thesis by blast
      qed
    qed
    have excl: "\<not> (\<exists>ds. butlast np = np @ ds)"
    proof
      assume "\<exists>ds. butlast np = np @ ds"
      then obtain ds where "butlast np = np @ ds" by blast
      then have "length (butlast np) = length np + length ds" by (metis length_append)
      moreover from False obtain a as where "np = a # as" by (cases np) auto
      then have "length np = Suc (length as)" "length (butlast np) = length as" by simp_all
      ultimately show False by linarith
    qed
    show ?thesis
    proof (cases "is_real head np")
      case True
      then have c: "node_at head np \<noteq> NULL \<and> n_prefix (node_at head np) \<noteq> None"
        by (simp add: is_real_def)
      obtain rc calls where w: "covering_walk head func (butlast np) = (rc, calls)"
        by (cases "covering_walk head func (butlast np)")
      have e: "covering_walk head func np = (rc, np # calls)"
        using c f0 False w by (subst covering_walk.simps) simp
      from "1.IH"(1) [OF c _ False "1.prems"] f0 w
      have ih: "rc = 0" "count_list calls x
          = (if (\<exists>ds. butlast np = x @ ds) \<and> is_real head x then 1 else 0)" by simp_all
      show ?thesis
        unfolding e using ih up excl True by auto
    next
      case nr: False
      then have c: "\<not> (node_at head np \<noteq> NULL \<and> n_prefix (node_at head np) \<noteq> None)"
        by (simp add: is_real_def)
      have e: "covering_walk head func np = covering_walk head func (butlast np)"
        using c False by (subst covering_walk.simps) auto
      from "1.IH"(2) [OF c False "1.prems"]
      have ih: "fst (covering_walk head func (butlast np)) = 0"
        "count_list (snd (covering_walk head func (butlast np))) x
          = (if (\<exists>ds. butlast np = x @ ds) \<and> is_real head x then 1 else 0)" by simp_all
      show ?thesis
        unfolding e using ih up nr by auto
    qed
  qed
qed

lemma covered_descend_stored:
  assumes "node_inv fam n" "node_at n np \<noteq> NULL" "n_prefix (node_at n np) = Some s"
    "bitlen s = bitlen q" "agree (add s) (add q) (bitlen q)"
    "length (add q) * 8 = m" "bitlen q \<le> m"
  shows "\<exists>pf. covered_descend oob n q acc prev pfx = (Some (acc @ np), Some (acc @ np), pf)"
  using assms(1,2,3)
proof (induction np arbitrary: n acc prev pfx)
  case Nil
  then obtain b p dt l r where n: "n = Node b p dt l r" by (cases n) auto
  with Nil have "p = Some s" by simp
  with invD(1) [OF Nil.prems(1) [unfolded n]] assms(4) have "b = bitlen q" by simp
  with n show ?case by simp
next
  case (Cons dir ds)
  from Cons.prems(2) obtain b p dt l r where n: "n = Node b p dt l r" by (cases n) auto
  define c where "c = (if dir then r else l)"
  note iv = invD [OF Cons.prems(1) [unfolded n]]
  have ic: "node_inv fam c" using iv(7,8) by (simp add: c_def)
  have Nc: "node_at c ds \<noteq> NULL" "n_prefix (node_at c ds) = Some s"
    using Cons.prems(2,3) n by (simp_all add: c_def)
  then have cnn: "c \<noteq> NULL" by (auto simp: node_at_NULL)
  have sc: "s \<in> pset c" using Nc pset_iff_node by blast
  have sdir: "abit (add s) b = dir" using iv(2,3) sc by (auto simp: c_def split: if_splits)
  have "b < n_bit c" using iv(5,6) cnn by (auto simp: c_def)
  moreover have "n_bit c \<le> bitlen s" by (rule inv_bit_le [OF ic cnn sc])
  ultimately have bq: "b < bitlen q" using assms(4) by simp
  from agree_abit [OF assms(5) bq] sdir have qdir: "abit (add q) b = dir" by simp
  have t: "BIT_TEST_SEARCH oob (add q) b = dir"
    using search_test_in_range [OF assms(6), of b oob] bq assms(7) qdir by simp
  from Cons.IH [OF ic Nc, of "acc @ [dir]" "Some acc" "if p \<noteq> None then Some acc else pfx"]
  obtain pf where "covered_descend oob c q (acc @ [dir]) (Some acc)
      (if p \<noteq> None then Some acc else pfx) = (Some (acc @ dir # ds), Some (acc @ dir # ds), pf)"
    by auto
  with n bq t show ?case by (cases dir) (auto simp: c_def)
qed

text \<open>The nodes with a prefix in a subtree, children before their parent, as paths.\<close>

fun post :: "radix_node_t \<Rightarrow> node_ptr \<Rightarrow> node_ptr list" where
  "post NULL acc = []"
| "post (Node b p dt l r) acc =
     post l (acc @ [False]) @ post r (acc @ [True]) @ (if p \<noteq> None then [acc] else [])"

lemma count_post:
  "count_list (post t acc) x
     = (if \<exists>ds. x = acc @ ds \<and> node_at t ds \<noteq> NULL \<and> n_prefix (node_at t ds) \<noteq> None
        then 1 else 0)"
proof (induction t arbitrary: acc)
  case NULL
  then show ?case by (simp add: node_at_NULL)
next
  case (Node b p dt l r)
  let ?real = "\<lambda>t ds. node_at t ds \<noteq> NULL \<and> n_prefix (node_at t ds) \<noteq> None"
  have L: "(\<exists>ds. x = (acc @ [False]) @ ds \<and> ?real l ds)
      = (\<exists>ds. x = acc @ False # ds \<and> ?real (Node b p dt l r) (False # ds))" by simp
  have R: "(\<exists>ds. x = (acc @ [True]) @ ds \<and> ?real r ds)
      = (\<exists>ds. x = acc @ True # ds \<and> ?real (Node b p dt l r) (True # ds))" by simp
  have split: "(\<exists>ds. x = acc @ ds \<and> ?real (Node b p dt l r) ds)
      = ((x = acc \<and> p \<noteq> None)
         \<or> (\<exists>ds. x = acc @ False # ds \<and> ?real (Node b p dt l r) (False # ds))
         \<or> (\<exists>ds. x = acc @ True # ds \<and> ?real (Node b p dt l r) (True # ds)))"
    (is "?A = (?S \<or> ?Lc \<or> ?Rc)")
  proof
    assume ?A
    then obtain ds where d: "x = acc @ ds" "?real (Node b p dt l r) ds" by blast
    show "?S \<or> ?Lc \<or> ?Rc"
    proof (cases ds)
      case Nil
      with d show ?thesis by simp
    next
      case (Cons a as)
      with d show ?thesis by (cases a) auto
    qed
  next
    assume "?S \<or> ?Lc \<or> ?Rc"
    then show ?A
    proof (elim disjE)
      assume ?S
      then have "x = acc @ [] \<and> ?real (Node b p dt l r) []" by simp
      then show ?A by blast
    next
      assume ?Lc
      then show ?A by blast
    next
      assume ?Rc
      then show ?A by blast
    qed
  qed
  have ex1: "\<not> (?S \<and> ?Lc)" "\<not> (?S \<and> ?Rc)" "\<not> (?Lc \<and> ?Rc)" by auto
  have "count_list (post (Node b p dt l r) acc) x
      = (if ?Lc then 1 else 0) + (if ?Rc then 1 else 0) + (if ?S then 1 else 0)"
    using Node.IH(1) [of "acc @ [False]"] Node.IH(2) [of "acc @ [True]"]
    unfolding L R by (simp add: eq_commute [of x acc])
  also have "\<dots> = (if ?A then 1 else 0)"
    unfolding split using ex1 by auto
  finally show ?case .
qed

lemma covered_loop_self:
  assumes "\<forall>np. func np = 0"
  shows "covered_loop head q func inclusive ((np, RADIX_STATE_SELF, c) # rest)
     = (fst (covered_loop head q func inclusive rest),
        (if (rest \<noteq> [] \<or> (if inclusive then bitlen q \<le> n_bit (node_at head np)
                            else bitlen q < n_bit (node_at head np)))
            \<and> n_prefix (node_at head np) \<noteq> None then [np] else [])
        @ snd (covered_loop head q func inclusive rest))"
  using assms by (auto split: prod.splits)

lemma covered_loop_checked:
  assumes f0: "\<forall>np. func np = 0"
  shows "node_at head np = t \<Longrightarrow> t \<noteq> NULL \<Longrightarrow>
     covered_loop head q func inclusive ((np, RADIX_STATE_LEFT, True) # rest)
     = (fst (covered_loop head q func inclusive rest),
        post (n_l t) (np @ [False]) @ post (n_r t) (np @ [True])
        @ (if (rest \<noteq> [] \<or> (if inclusive then bitlen q \<le> n_bit t else bitlen q < n_bit t))
              \<and> n_prefix t \<noteq> None then [np] else [])
        @ snd (covered_loop head q func inclusive rest))"
proof (induction t arbitrary: np rest)
  case NULL
  then show ?case by simp
next
  case (Node b p dt l r)
  let ?loop = "covered_loop head q func inclusive"
  have child: "?loop ((cp, RADIX_STATE_LEFT, True) # R) = (fst (?loop R), post ch cp @ snd (?loop R))"
    if "node_at head cp = ch" "ch \<noteq> NULL" "R \<noteq> []"
      and ih: "\<And>np rest. node_at head np = ch \<Longrightarrow> ch \<noteq> NULL \<Longrightarrow>
          ?loop ((np, RADIX_STATE_LEFT, True) # rest)
          = (fst (?loop rest),
             post (n_l ch) (np @ [False]) @ post (n_r ch) (np @ [True])
             @ (if (rest \<noteq> [] \<or> (if inclusive then bitlen q \<le> n_bit ch else bitlen q < n_bit ch))
                   \<and> n_prefix ch \<noteq> None then [np] else [])
             @ snd (?loop rest))"
    for cp ch R
  proof -
    from that(2) obtain b' p' dt' l' r' where ch: "ch = Node b' p' dt' l' r'" by (cases ch) auto
    from ih [OF that(1,2), of R] that(3) ch show ?thesis by simp
  qed
  let ?S = "(np, RADIX_STATE_SELF, True) # rest"
  let ?Rt = "(np, RADIX_STATE_RIGHT, True) # rest"
  have nl: "node_at head (np @ [False]) = l" and nr: "node_at head (np @ [True]) = r"
    using Node.prems(1) by (simp_all add: node_at_append)
  have S: "?loop ?S = (fst (?loop rest),
        (if (rest \<noteq> [] \<or> (if inclusive then bitlen q \<le> b else bitlen q < b))
            \<and> p \<noteq> None then [np] else []) @ snd (?loop rest))"
    using covered_loop_self [OF f0, of head q inclusive np True rest] Node.prems(1) by simp
  have Rr: "?loop ?Rt = (fst (?loop ?S), post r (np @ [True]) @ snd (?loop ?S))"
  proof (cases "r = NULL")
    case True
    then show ?thesis using nr by (simp add: Let_def)
  next
    case False
    have "?loop ?Rt = ?loop ((np @ [True], RADIX_STATE_LEFT, True) # ?S)"
      using False nr by (simp add: Let_def)
    also have "\<dots> = (fst (?loop ?S), post r (np @ [True]) @ snd (?loop ?S))"
      by (rule child [OF nr False _ Node.IH(2)]) simp_all
    finally show ?thesis .
  qed
  have Ll: "?loop ((np, RADIX_STATE_LEFT, True) # rest)
      = (fst (?loop ?Rt), post l (np @ [False]) @ snd (?loop ?Rt))"
  proof (cases "l = NULL")
    case True
    then show ?thesis using nl by (simp add: Let_def)
  next
    case False
    have "?loop ((np, RADIX_STATE_LEFT, True) # rest)
        = ?loop ((np @ [False], RADIX_STATE_LEFT, True) # ?Rt)"
      using False nl by (simp add: Let_def)
    also have "\<dots> = (fst (?loop ?Rt), post l (np @ [False]) @ snd (?loop ?Rt))"
      by (rule child [OF nl False _ Node.IH(1)]) simp_all
    finally show ?thesis .
  qed
  show ?case unfolding Ll Rr S by simp
qed

text \<open>
  Containment as the specification words it, for prefixes of one family: \<open>s\<close> contains \<open>q\<close>
  when it is no longer than \<open>q\<close> and agrees with it on its first \<open>bitlen s\<close> bits.
\<close>

definition contains :: "prefix_t \<Rightarrow> prefix_t \<Rightarrow> bool" where
  "contains s q =
     (family s = family q \<and> bitlen s \<le> bitlen q \<and> agree (add s) (add q) (bitlen s))"

text \<open>The prefixes stored in the tree, of both families.\<close>

definition stored :: "radix_tree_t \<Rightarrow> prefix_t set" where
  "stored radix = pset (head_ipv4 radix) \<union> pset (head_ipv6 radix)"

lemma contains_bits: "contains s q = (family s = family q \<and> bits_contain s q)"
  by (simp add: contains_def bits_contain_def)

lemma stored_family:
  assumes "tree_inv radix"
  shows "(s \<in> stored radix \<and> family s = family q) = (s \<in> pset (RADIX_HEAD_BY_PREFIX radix q))"
proof -
  from assms have i4: "node_inv AF_INET (head_ipv4 radix)"
    and i6: "node_inv AF_INET6 (head_ipv6 radix)" by (simp_all add: tree_inv_def)
  show ?thesis
    using inv_family [OF i4, of s] inv_family [OF i6, of s]
    by (cases "family q") (auto simp: stored_def RADIX_HEAD_BY_PREFIX_def)
qed

text \<open>
  Claim C1: on a tree built by inserts and deletes and a query of valid length,
  radix_search_best2 returns a node with a prefix that contains the query and is at least as
  long as every stored prefix containing the query; it returns null exactly
  when no stored prefix contains the query. Without \<open>inclusive\<close> the same holds among the
  stored prefixes whose length differs from the length of the query.
\<close>

theorem C1_search_best:
  assumes "reachable radix" "valid_prefix q"
  shows "case radix_search_best2 oob radix q inclusive of
      None \<Rightarrow> \<not> (\<exists>s \<in> stored radix. contains s q \<and> (inclusive \<or> bitlen s \<noteq> bitlen q))
    | Some np \<Rightarrow>
        node_at (RADIX_HEAD_BY_PREFIX radix q) np \<noteq> NULL \<and>
        (\<exists>s. n_prefix (node_at (RADIX_HEAD_BY_PREFIX radix q) np) = Some s
           \<and> s \<in> stored radix \<and> contains s q \<and> (inclusive \<or> bitlen s \<noteq> bitlen q)
           \<and> (\<forall>s' \<in> stored radix.
                 contains s' q \<and> (inclusive \<or> bitlen s' \<noteq> bitlen q)
                 \<longrightarrow> bitlen s' \<le> bitlen s))"
proof -
  define head where "head = RADIX_HEAD_BY_PREFIX radix q"
  from reachable_inv [OF assms(1)] have ti: "tree_inv radix" by simp
  have sf: "(s \<in> stored radix \<and> contains s q) = (s \<in> pset head \<and> bits_contain s q)" for s
    using stored_family [OF ti, of s q] by (auto simp: contains_bits head_def)
  note sp = search_best2_spec [OF assms, where oob = oob and inclusive = inclusive, folded head_def]
  show ?thesis
  proof (cases "radix_search_best2 oob radix q inclusive")
    case None
    with sp have "\<not> (\<exists>s \<in> pset head. bits_contain s q \<and> (inclusive \<or> bitlen s \<noteq> bitlen q))"
      by simp
    with sf have "\<not> (\<exists>s \<in> stored radix. contains s q \<and> (inclusive \<or> bitlen s \<noteq> bitlen q))"
      by blast
    with None show ?thesis by simp
  next
    case (Some np)
    with sp obtain s where nn: "node_at head np \<noteq> NULL"
      and ps: "n_prefix (node_at head np) = Some s"
      and cs: "bits_contain s q" and ne: "inclusive \<or> bitlen s \<noteq> bitlen q"
      and mx: "\<forall>s' \<in> pset head. bits_contain s' q \<and> (inclusive \<or> bitlen s' \<noteq> bitlen q)
                 \<longrightarrow> bitlen s' \<le> bitlen s" by auto
    have "s \<in> pset head" using nn ps pset_iff_node by blast
    with sf [of s] cs have st: "s \<in> stored radix" "contains s q" by simp_all
    have mx': "\<forall>s' \<in> stored radix. contains s' q \<and> (inclusive \<or> bitlen s' \<noteq> bitlen q)
                 \<longrightarrow> bitlen s' \<le> bitlen s"
      using mx sf by blast
    from nn ps st ne mx' have "node_at head np \<noteq> NULL \<and>
        (\<exists>s. n_prefix (node_at head np) = Some s
           \<and> s \<in> stored radix \<and> contains s q \<and> (inclusive \<or> bitlen s \<noteq> bitlen q)
           \<and> (\<forall>s' \<in> stored radix.
                 contains s' q \<and> (inclusive \<or> bitlen s' \<noteq> bitlen q)
                 \<longrightarrow> bitlen s' \<le> bitlen s))" by blast
    with Some show ?thesis by (simp add: head_def)
  qed
qed

lemma best_nested_inclusive:
  "radix_search_best2 no_oob tree_nested net_128_1 True = Some [True]"
  by code_simp

lemma best_nested_exclusive:
  "radix_search_best2 no_oob tree_nested net_128_1 False = Some []"
  by code_simp

theorem C1_search_best_witness:
  "reachable tree_nested \<and> valid_prefix net_128_1
   \<and> radix_search_best2 no_oob tree_nested net_128_1 True = Some [True]
   \<and> (\<exists>s. n_prefix (node_at (RADIX_HEAD_BY_PREFIX tree_nested net_128_1) [True]) = Some s
         \<and> s \<in> stored tree_nested \<and> contains s net_128_1
         \<and> (\<forall>s' \<in> stored tree_nested. contains s' net_128_1 \<longrightarrow> bitlen s' \<le> bitlen s))
   \<and> radix_search_best2 no_oob tree_nested net_128_1 False = Some []
   \<and> (\<exists>s. n_prefix (node_at (RADIX_HEAD_BY_PREFIX tree_nested net_128_1) []) = Some s
         \<and> s \<in> stored tree_nested \<and> contains s net_128_1 \<and> bitlen s \<noteq> bitlen net_128_1
         \<and> (\<forall>s' \<in> stored tree_nested. contains s' net_128_1 \<and> bitlen s' \<noteq> bitlen net_128_1
                \<longrightarrow> bitlen s' \<le> bitlen s))"
  using C1_search_best [OF reachable_nested valid_examples(3), where oob = no_oob and inclusive = True]
    C1_search_best [OF reachable_nested valid_examples(3), where oob = no_oob and inclusive = False]
    reachable_nested valid_examples(3)
  by (simp add: best_nested_inclusive best_nested_exclusive)

lemma covered_stored:
  assumes iv: "node_inv fam head" and fq: "family Q = fam"
    and nQ: "node_at head npQ \<noteq> NULL" "n_prefix (node_at head npQ) = Some Q"
    and f0: "\<forall>np. func np = 0"
    and hd: "RADIX_HEAD_BY_PREFIX radix Q = head"
  shows "radix_search_covered oob radix Q func True = (0, post (node_at head npQ) npQ)"
proof -
  note rp = real_node_prefix [OF iv nQ]
  have len: "length (add Q) * 8 = RADIX_MAXBITS_BY_PREFIX Q" by (rule valid_prefix_len [OF rp(2)])
  have blm: "bitlen Q \<le> RADIX_MAXBITS_BY_PREFIX Q" using rp(2) by (simp add: valid_prefix_def)
  from covered_descend_stored [OF iv nQ refl agree_refl len blm, of oob "[]" None None]
  obtain pf where cd: "covered_descend oob head Q [] None None = (Some npQ, Some npQ, pf)"
    by auto
  have "comp_with_mask (add Q) (add Q) (bitlen Q) = agree (add Q) (add Q) (bitlen Q)"
    using comp_stored_query [OF rp(2) rp(2) refl, of "bitlen Q"] by simp
  then have cmp: "COMP_NODE_PREFIX (node_at head npQ) Q"
    by (simp add: COMP_NODE_PREFIX_def nQ(2) agree_refl)
  obtain b dt l r where N: "node_at head npQ = Node b (Some Q) dt l r"
    using nQ by (cases "node_at head npQ") auto
  have bq: "b = bitlen Q" using rp(3) N by simp
  have e: "radix_search_covered oob radix Q func True
      = covered_loop head Q func True [(npQ, RADIX_STATE_LEFT, True)]"
    by (simp add: radix_search_covered_def hd cd Let_def nQ(2) cmp rp(3))
  show ?thesis
    unfolding e covered_loop_checked [OF f0 refl nQ(1)]
    by (simp add: N bq)
qed

text \<open>
  Claim C2: on a tree built by inserts and deletes, with \<open>P\<close> stored at the node \<open>npP\<close> and
  \<open>Q\<close> stored at the node \<open>npQ\<close>, \<open>Q\<close> containing \<open>P\<close>, and a callback that always returns 0:
  radix_search_covered on \<open>Q\<close> with \<open>inclusive\<close> calls the callback on \<open>npP\<close> exactly once,
  and radix_search_covering on \<open>P\<close> calls it on \<open>npQ\<close> exactly once. Both return 0.
\<close>

theorem C2_covering_covered:
  assumes "reachable radix"
    "node_at (RADIX_HEAD_BY_PREFIX radix P) npP \<noteq> NULL"
    "n_prefix (node_at (RADIX_HEAD_BY_PREFIX radix P) npP) = Some P"
    "node_at (RADIX_HEAD_BY_PREFIX radix Q) npQ \<noteq> NULL"
    "n_prefix (node_at (RADIX_HEAD_BY_PREFIX radix Q) npQ) = Some Q"
    "contains Q P" "\<forall>np. func np = 0"
  shows "count_list (snd (radix_search_covered oob radix Q func True)) npP = 1
       \<and> count_list (snd (radix_search_covering oob radix P func)) npQ = 1
       \<and> fst (radix_search_covered oob radix Q func True) = 0
       \<and> fst (radix_search_covering oob radix P func) = 0"
proof -
  define head where "head = RADIX_HEAD_BY_PREFIX radix Q"
  from assms(6) have fam: "family Q = family P" and bc: "bits_contain Q P"
    by (simp_all add: contains_bits)
  have hP: "RADIX_HEAD_BY_PREFIX radix P = head"
    using fam by (simp add: head_def RADIX_HEAD_BY_PREFIX_def)
  from reachable_inv [OF assms(1)] have iv: "node_inv (family Q) head"
    by (simp add: head_def head_by_prefix tree_inv_head)
  have nP: "node_at head npP \<noteq> NULL" "n_prefix (node_at head npP) = Some P"
    using assms(2,3) hP by simp_all
  have nQ: "node_at head npQ \<noteq> NULL" "n_prefix (node_at head npQ) = Some Q"
    using assms(4,5) by (simp_all add: head_def)
  from ancestor_path [OF iv nP nQ bc] obtain ds where ds: "npP = npQ @ ds" by blast
  have sub: "node_at (node_at head npQ) ds = node_at head npP"
    by (simp add: ds node_at_append)
  have cvd: "radix_search_covered oob radix Q func True = (0, post (node_at head npQ) npQ)"
    by (rule covered_stored [OF iv refl nQ assms(7)]) (simp add: head_def)
  have "count_list (post (node_at head npQ) npQ) npP = 1"
    unfolding count_post using ds sub nP by auto
  with cvd have c1: "count_list (snd (radix_search_covered oob radix Q func True)) npP = 1"
    by simp
  have cvg: "radix_search_covering oob radix P func = covering_walk head func npP"
    using search_best_stored [OF assms(1,2,3), of oob] by (simp add: radix_search_covering_def hP)
  from covering_walk_count [OF assms(7), of head npP npQ] ds nQ
  have c2: "count_list (snd (covering_walk head func npP)) npQ = 1"
    and r2: "fst (covering_walk head func npP) = 0" by (auto simp: is_real_def)
  from c1 c2 r2 cvd cvg show ?thesis by simp
qed

theorem C2_covering_covered_witness:
  "reachable tree_nested
   \<and> node_at (RADIX_HEAD_BY_PREFIX tree_nested net_128_1) [True] \<noteq> NULL
   \<and> n_prefix (node_at (RADIX_HEAD_BY_PREFIX tree_nested net_128_1) [True]) = Some net_128_1
   \<and> node_at (RADIX_HEAD_BY_PREFIX tree_nested net_0_0) [] \<noteq> NULL
   \<and> n_prefix (node_at (RADIX_HEAD_BY_PREFIX tree_nested net_0_0) []) = Some net_0_0
   \<and> contains net_0_0 net_128_1 \<and> (\<forall>np. (\<lambda>np. 0 :: int) np = 0)
   \<and> count_list (snd (radix_search_covered no_oob tree_nested net_0_0 (\<lambda>np. 0) True)) [True] = 1
   \<and> count_list (snd (radix_search_covering no_oob tree_nested net_128_1 (\<lambda>np. 0))) [] = 1"
proof -
  have a: "node_at (RADIX_HEAD_BY_PREFIX tree_nested net_128_1) [True] \<noteq> NULL"
    "n_prefix (node_at (RADIX_HEAD_BY_PREFIX tree_nested net_128_1) [True]) = Some net_128_1"
    "node_at (RADIX_HEAD_BY_PREFIX tree_nested net_0_0) [] \<noteq> NULL"
    "n_prefix (node_at (RADIX_HEAD_BY_PREFIX tree_nested net_0_0) []) = Some net_0_0"
    by (simp_all add: tree_nested_def RADIX_HEAD_BY_PREFIX_def net_0_0_def net_128_1_def ip4_def)
  have c: "contains net_0_0 net_128_1"
    by (simp add: contains_def agree_def net_0_0_def net_128_1_def ip4_def)
  have f: "\<forall>np. (\<lambda>np. 0 :: int) np = 0" by simp
  from C2_covering_covered [OF reachable_nested a c f, where oob = no_oob]
    reachable_nested a c
  show ?thesis by simp
qed

end
